theory Spec2Isabelle
  imports Main "HOL-Library.Monad_Syntax" "HOL-Library.Char_ord" "HOL-Library.List_Lexorder"
begin

section \<open>The generic AVL tree of generictree.go\<close>

text \<open>
  A \<^verbatim>\<open>*Node[Value, Data]\<close> is either the nil pointer (\<open>Null\<close>) or points to a struct with the
  fields \<^verbatim>\<open>Value\<close>, \<^verbatim>\<open>Data\<close>, \<^verbatim>\<open>Left\<close>, \<^verbatim>\<open>Right\<close> and \<^verbatim>\<open>height\<close>, in this order. Every node
  is owned by exactly one parent slot, so the in-place updates of the source are modelled
  by returning the updated subtree. The key type carries a total order (\<open>linorder\<close>): that is
  \<^verbatim>\<open>cmp.Ordered\<close> without the floating-point NaN. The cached height is a Go \<^verbatim>\<open>int\<close>; it is
  modelled as an unbounded \<open>int\<close>, since it never exceeds the number of nodes.

  A nil-pointer dereference is a panic of the Go runtime; every function that can
  dereference nil returns an \<open>option\<close>, and \<open>None\<close> is the panic.
\<close>

datatype ('k, 'd) node = Null | Node 'k 'd "('k, 'd) node" "('k, 'd) node" int

text \<open>The generic helper \<^verbatim>\<open>max\<close> of the source.\<close>

definition max_go :: "'a::linorder \<Rightarrow> 'a \<Rightarrow> 'a" where
  "max_go a b = (if a > b then a else b)"

text \<open>\<^verbatim>\<open>Height\<close> is nil-safe: a nil receiver has height 0.\<close>

fun Height :: "('k, 'd) node \<Rightarrow> int" where
  "Height Null = 0"
| "Height (Node v d l r h) = h"

text \<open>\<^verbatim>\<open>Bal\<close> reads \<^verbatim>\<open>n.Right\<close> and \<^verbatim>\<open>n.Left\<close>, so it panics on a nil receiver.\<close>

fun Bal :: "('k, 'd) node \<Rightarrow> int option" where
  "Bal Null = None"
| "Bal (Node v d l r h) = Some (Height r - Height l)"

text \<open>
  \<^verbatim>\<open>rotateLeft\<close>: \<^verbatim>\<open>r := n.Right; n.Right = r.Left; r.Left = n\<close>, then the height of \<open>n\<close> and
  after it the height of \<open>r\<close> are recomputed from their children.
\<close>

fun rotateLeft :: "('k, 'd) node \<Rightarrow> ('k, 'd) node option" where
  "rotateLeft Null = None"
| "rotateLeft (Node v d l Null h) = None"
| "rotateLeft (Node v d l (Node rv rd rl rr rh) h) =
     (let n = Node v d l rl (max_go (Height l) (Height rl) + 1)
      in Some (Node rv rd n rr (max_go (Height n) (Height rr) + 1)))"

fun rotateRight :: "('k, 'd) node \<Rightarrow> ('k, 'd) node option" where
  "rotateRight Null = None"
| "rotateRight (Node v d Null r h) = None"
| "rotateRight (Node v d (Node lv ld ll lr lh) r h) =
     (let n = Node v d lr r (max_go (Height lr) (Height r) + 1)
      in Some (Node lv ld ll n (max_go (Height ll) (Height n) + 1)))"

text \<open>The statement \<^verbatim>\<open>n.height = max(n.Left.Height(), n.Right.Height()) + 1\<close>.\<close>

fun set_height :: "('k, 'd) node \<Rightarrow> ('k, 'd) node option" where
  "set_height Null = None"
| "set_height (Node v d l r h) = Some (Node v d l r (max_go (Height l) (Height r) + 1))"

fun rotateRightLeft :: "('k, 'd) node \<Rightarrow> ('k, 'd) node option" where
  "rotateRightLeft Null = None"
| "rotateRightLeft (Node v d l r h) =
     do { r' \<leftarrow> rotateRight r;
          n \<leftarrow> rotateLeft (Node v d l r' h);
          set_height n }"

fun rotateLeftRight :: "('k, 'd) node \<Rightarrow> ('k, 'd) node option" where
  "rotateLeftRight Null = None"
| "rotateLeftRight (Node v d l r h) =
     do { l' \<leftarrow> rotateLeft l;
          n \<leftarrow> rotateRight (Node v d l' r h);
          set_height n }"

text \<open>
  Go's \<^verbatim>\<open>a && b\<close> evaluates \<open>b\<close> only when \<open>a\<close> holds; \<open>b\<close> may panic.
\<close>

fun and_then :: "bool \<Rightarrow> bool option \<Rightarrow> bool option" where
  "and_then False b = Some False"
| "and_then True b = b"

text \<open>The comparison \<^verbatim>\<open>m.Bal() == c\<close>, which panics when \<open>m\<close> is nil.\<close>

definition Bal_is :: "('k, 'd) node \<Rightarrow> int \<Rightarrow> bool option" where
  "Bal_is m c = map_option (\<lambda>b. b = c) (Bal m)"

text \<open>
  \<^verbatim>\<open>rebalance\<close>: the four cases of the \<^verbatim>\<open>switch\<close> are tried in the order of the source, and
  the node is returned as it is when none applies.
\<close>

fun rebalance :: "('k, 'd) node \<Rightarrow> ('k, 'd) node option" where
  "rebalance Null = None"
| "rebalance (Node v d l r h) =
     (let n = Node v d l r h; b = Height r - Height l in
      do { c1 \<leftarrow> and_then (b < -1) (Bal_is l (-1));
           if c1 then rotateRight n else
      do { c2 \<leftarrow> and_then (b > 1) (Bal_is r 1);
           if c2 then rotateLeft n else
      do { c3 \<leftarrow> and_then (b < -1) (Bal_is l 1);
           if c3 then rotateLeftRight n else
      do { c4 \<leftarrow> and_then (b > 1) (Bal_is r (-1));
           if c4 then rotateRightLeft n else Some n } } } })"

text \<open>
  \<^verbatim>\<open>Node.Insert\<close>: a nil receiver yields a fresh leaf of height 1; an equal key overwrites
  the data and returns at once; otherwise the call recurses, stores the returned subtree
  in the child slot, recomputes the height and rebalances.
\<close>

fun Insert :: "'k::linorder \<Rightarrow> 'd \<Rightarrow> ('k, 'd) node \<Rightarrow> ('k, 'd) node option" where
  "Insert value data Null = Some (Node value data Null Null 1)"
| "Insert value data (Node v d l r h) =
     (if v = value then Some (Node v data l r h)
      else if value < v then
        do { l' \<leftarrow> Insert value data l;
             rebalance (Node v d l' r (max_go (Height l') (Height r) + 1)) }
      else
        do { r' \<leftarrow> Insert value data r;
             rebalance (Node v d l r' (max_go (Height l) (Height r') + 1)) })"

text \<open>
  \<^verbatim>\<open>Node.Find\<close>; \<open>zero\<close> is the zero value of the instantiated \<^verbatim>\<open>Data\<close> type.
\<close>

fun Find :: "'d \<Rightarrow> 'k::linorder \<Rightarrow> ('k, 'd) node \<Rightarrow> 'd \<times> bool" where
  "Find zero s Null = (zero, False)"
| "Find zero s (Node v d l r h) =
     (if s = v then (d, True)
      else if s < v then Find zero s l
      else Find zero s r)"

text \<open>
  A \<^verbatim>\<open>*Tree[Value, Data]\<close> is nil (\<open>NilTree\<close>) or points to a struct with the one field
  \<^verbatim>\<open>Root\<close>.
\<close>

datatype ('k, 'd) tree = NilTree | Tree "('k, 'd) node"

text \<open>\<^verbatim>\<open>Tree.rebalance\<close> returns at once on a nil handle or a nil root.\<close>

fun Tree_rebalance :: "('k, 'd) tree \<Rightarrow> ('k, 'd) tree option" where
  "Tree_rebalance NilTree = Some NilTree"
| "Tree_rebalance (Tree Null) = Some (Tree Null)"
| "Tree_rebalance (Tree root) = map_option Tree (rebalance root)"

text \<open>The test \<^verbatim>\<open>t.Root.Bal() < -1 || t.Root.Bal() > 1\<close> of \<^verbatim>\<open>Tree.Insert\<close>.\<close>

definition root_imbalanced :: "('k, 'd) node \<Rightarrow> bool option" where
  "root_imbalanced root = map_option (\<lambda>b. b < -1 \<or> b > 1) (Bal root)"

fun Tree_Insert :: "'k::linorder \<Rightarrow> 'd \<Rightarrow> ('k, 'd) tree \<Rightarrow> ('k, 'd) tree option" where
  "Tree_Insert value data NilTree = None"
| "Tree_Insert value data (Tree root) =
     do { root' \<leftarrow> Insert value data root;
          c \<leftarrow> root_imbalanced root';
          if c then Tree_rebalance (Tree root') else Some (Tree root') }"

fun Tree_Find :: "'d \<Rightarrow> 'k::linorder \<Rightarrow> ('k, 'd) tree \<Rightarrow> 'd \<times> bool" where
  "Tree_Find zero s NilTree = (zero, False)"
| "Tree_Find zero s (Tree Null) = (zero, False)"
| "Tree_Find zero s (Tree root) = Find zero s root"

text \<open>
  \<^verbatim>\<open>Tree.Traverse\<close>: the visitor \<open>f\<close> is a function of the visited node that transforms the
  caller's state \<open>'s\<close> (what a Go closure captures); it does not relink the tree. The
  handle \<open>t\<close> is a parameter, as in the source, and is only passed on.
\<close>

fun Traverse :: "('k, 'd) tree \<Rightarrow> ('k, 'd) node \<Rightarrow> (('k, 'd) node \<Rightarrow> 's \<Rightarrow> 's) \<Rightarrow> 's \<Rightarrow> 's" where
  "Traverse t Null f s = s"
| "Traverse t (Node v d l r h) f s =
     Traverse t r f (f (Node v d l r h) (Traverse t l f s))"

text \<open>A run of \<^verbatim>\<open>Tree.Insert\<close> calls, as \<^verbatim>\<open>main\<close> issues them; it stops at a panic.\<close>

fun Inserts :: "('k::linorder \<times> 'd) list \<Rightarrow> ('k, 'd) tree \<Rightarrow> ('k, 'd) tree option" where
  "Inserts [] t = Some t"
| "Inserts ((value, data) # kvs) t =
     do { t' \<leftarrow> Tree_Insert value data t; Inserts kvs t' }"

section \<open>The parent-pointer AVL tree of balancedtree.go\<close>

text \<open>
  The older variant: keys and data are Go strings (byte sequences, compared byte by byte,
  which is the lexicographic order on \<open>string\<close>), and a node stores its balance factor
  \<^verbatim>\<open>bal\<close> instead of a height. The fields are \<^verbatim>\<open>Value\<close>, \<^verbatim>\<open>Data\<close>, \<^verbatim>\<open>Left\<close>, \<^verbatim>\<open>Right\<close>, \<^verbatim>\<open>bal\<close>.

  The methods take the parent \<open>p\<close> of the receiver \<open>n\<close> and, after a rotation, store the new
  subtree root in the slot of \<open>p\<close> that held \<open>n\<close> (\<^verbatim>\<open>if n == p.Left { p.Left = r } else { p.Right = r }\<close>).
  The receiver is always a child of \<open>p\<close> (the caller passes itself, or the temporary parent
  of the root), and \<open>p\<close> is never nil. The model returns the new content of that slot, and
  the caller puts it where \<open>n\<close> was. The return values of the rotation methods are ignored
  by the source and are not modelled; its printing is not modelled either.
\<close>

datatype bnode = BNull | BNode string string bnode bnode int

text \<open>Reading \<^verbatim>\<open>m.bal\<close> and the assignment \<^verbatim>\<open>m.bal = c\<close>; both panic when \<open>m\<close> is nil.\<close>

fun bal_of :: "bnode \<Rightarrow> int option" where
  "bal_of BNull = None"
| "bal_of (BNode v d l r b) = Some b"

fun set_bal :: "int \<Rightarrow> bnode \<Rightarrow> bnode option" where
  "set_bal c BNull = None"
| "set_bal c (BNode v d l r b) = Some (BNode v d l r c)"

text \<open>
  \<^verbatim>\<open>rotateLeft(p)\<close>: \<^verbatim>\<open>r := n.Right; n.Right = r.Left; r.Left = n\<close>, the slot of \<open>p\<close> gets \<open>r\<close>, and
  both balance factors are set to 0.
\<close>

fun rotateLeft_b :: "bnode \<Rightarrow> bnode option" where
  "rotateLeft_b BNull = None"
| "rotateLeft_b (BNode v d l BNull b) = None"
| "rotateLeft_b (BNode v d l (BNode rv rd rl rr rb) b) =
     Some (BNode rv rd (BNode v d l rl 0) rr 0)"

fun rotateRight_b :: "bnode \<Rightarrow> bnode option" where
  "rotateRight_b BNull = None"
| "rotateRight_b (BNode v d BNull r b) = None"
| "rotateRight_b (BNode v d (BNode lv ld ll lr lb) r b) =
     Some (BNode lv ld ll (BNode v d lr r 0) 0)"

text \<open>
  \<^verbatim>\<open>rotateRightLeft(p)\<close>: \<^verbatim>\<open>n.Right.Left.bal = 1; n.Right.rotateRight(n); n.Right.bal = 1;
  n.rotateLeft(p)\<close>. The inner rotation has \<open>n\<close> as parent, so its result lands in \<^verbatim>\<open>n.Right\<close>.
\<close>

fun rotateRightLeft_b :: "bnode \<Rightarrow> bnode option" where
  "rotateRightLeft_b BNull = None"
| "rotateRightLeft_b (BNode v d l BNull b) = None"
| "rotateRightLeft_b (BNode v d l (BNode rv rd rl rr rb) b) =
     do { rl' \<leftarrow> set_bal 1 rl;
          r1 \<leftarrow> rotateRight_b (BNode rv rd rl' rr rb);
          r2 \<leftarrow> set_bal 1 r1;
          rotateLeft_b (BNode v d l r2 b) }"

fun rotateLeftRight_b :: "bnode \<Rightarrow> bnode option" where
  "rotateLeftRight_b BNull = None"
| "rotateLeftRight_b (BNode v d BNull r b) = None"
| "rotateLeftRight_b (BNode v d (BNode lv ld ll lr lb) r b) =
     do { lr' \<leftarrow> set_bal (-1) lr;
          l1 \<leftarrow> rotateLeft_b (BNode lv ld ll lr' lb);
          l2 \<leftarrow> set_bal (-1) l1;
          rotateRight_b (BNode v d l2 r b) }"

text \<open>A test \<^verbatim>\<open>m.bal <= 0\<close>, \<^verbatim>\<open>m.bal == 1\<close>, ... on a child that may be nil.\<close>

definition bal_test :: "bnode \<Rightarrow> (int \<Rightarrow> bool) \<Rightarrow> bool option" where
  "bal_test m P = map_option P (bal_of m)"

text \<open>
  \<^verbatim>\<open>rebalance(p)\<close>, with the cases of the \<^verbatim>\<open>switch\<close> in the order of the source. The result is
  the new content of the parent's slot, paired with the balance factor that the receiver
  \<open>n\<close> itself has afterwards (\<^verbatim>\<open>Insert\<close> reads \<^verbatim>\<open>n.bal\<close> after the call): every rotation ends
  by setting \<^verbatim>\<open>n.bal = 0\<close>, and when no case applies \<open>n\<close> is as it was.
\<close>

fun rebalance_b :: "bnode \<Rightarrow> (bnode \<times> int) option" where
  "rebalance_b BNull = None"
| "rebalance_b (BNode v d l r b) =
     (let n = BNode v d l r b in
      do { c1 \<leftarrow> and_then (b = -2) (bal_test l (\<lambda>x. x \<le> 0));
           if c1 then map_option (\<lambda>s. (s, 0)) (rotateRight_b n) else
      do { c2 \<leftarrow> and_then (b = 2) (bal_test r (\<lambda>x. x \<ge> 0));
           if c2 then map_option (\<lambda>s. (s, 0)) (rotateLeft_b n) else
      do { c3 \<leftarrow> and_then (b = -2) (bal_test l (\<lambda>x. x = 1));
           if c3 then map_option (\<lambda>s. (s, 0)) (rotateLeftRight_b n) else
      do { c4 \<leftarrow> and_then (b = 2) (bal_test r (\<lambda>x. x = -1));
           if c4 then map_option (\<lambda>s. (s, 0)) (rotateRightLeft_b n) else Some (n, b) } } } })"

text \<open>
  \<^verbatim>\<open>Node.Insert(value, data, p)\<close>: the result is the new content of the parent's slot and the
  returned flag ("the height has increased"). A nil receiver panics at \<^verbatim>\<open>n.Value\<close>. For
  strings the third case \<^verbatim>\<open>value > n.Value\<close> is the one left when the first two fail.
\<close>

fun Insert_b :: "string \<Rightarrow> string \<Rightarrow> bnode \<Rightarrow> (bnode \<times> bool) option" where
  "Insert_b value data BNull = None"
| "Insert_b value data (BNode v d l r b) =
     (if value = v then Some (BNode v data l r b, False)
      else
        do { n1 \<leftarrow>
               (if value < v then
                  (if l = BNull then
                     Some (BNode v d (BNode value data BNull BNull 0) r (if r = BNull then -1 else 0))
                   else
                     do { (l', grown) \<leftarrow> Insert_b value data l;
                          Some (BNode v d l' r (if grown then b - 1 else b)) })
                else
                  (if r = BNull then
                     Some (BNode v d l (BNode value data BNull BNull 0) (if l = BNull then 1 else 0))
                   else
                     do { (r', grown) \<leftarrow> Insert_b value data r;
                          Some (BNode v d l r' (if grown then b + 1 else b)) }));
             b1 \<leftarrow> bal_of n1;
             (slot, nbal) \<leftarrow> (if b1 < -1 \<or> b1 > 1 then rebalance_b n1 else Some (n1, b1));
             Some (slot, nbal \<noteq> 0) })"

text \<open>\<^verbatim>\<open>Node.Find\<close>; the zero value of a Go string is the empty string.\<close>

fun Find_b :: "string \<Rightarrow> bnode \<Rightarrow> string \<times> bool" where
  "Find_b s BNull = ([], False)"
| "Find_b s (BNode v d l r b) =
     (if s = v then (d, True)
      else if s < v then Find_b s l
      else Find_b s r)"

datatype btree = BNilTree | BTree bnode

text \<open>
  \<^verbatim>\<open>Tree.Insert\<close>: an empty tree gets a single node; otherwise the root is inserted into
  under a temporary parent whose \<^verbatim>\<open>Left\<close> is the root, and \<^verbatim>\<open>tempParent.Left\<close> becomes the
  root afterwards. The methods of this \<^verbatim>\<open>Tree\<close> read \<^verbatim>\<open>t.Root\<close> first, so a nil handle panics.
\<close>

fun Tree_Insert_b :: "string \<Rightarrow> string \<Rightarrow> btree \<Rightarrow> btree option" where
  "Tree_Insert_b value data BNilTree = None"
| "Tree_Insert_b value data (BTree root) =
     (if root = BNull then Some (BTree (BNode value data BNull BNull 0))
      else do { (slot, grown) \<leftarrow> Insert_b value data root; Some (BTree slot) })"

fun Tree_Find_b :: "string \<Rightarrow> btree \<Rightarrow> (string \<times> bool) option" where
  "Tree_Find_b s BNilTree = None"
| "Tree_Find_b s (BTree root) = Some (if root = BNull then ([], False) else Find_b s root)"

fun Traverse_b :: "btree \<Rightarrow> bnode \<Rightarrow> (bnode \<Rightarrow> 's \<Rightarrow> 's) \<Rightarrow> 's \<Rightarrow> 's" where
  "Traverse_b t BNull f s = s"
| "Traverse_b t (BNode v d l r b) f s =
     Traverse_b t r f (f (BNode v d l r b) (Traverse_b t l f s))"

fun Inserts_b :: "(string \<times> string) list \<Rightarrow> btree \<Rightarrow> btree option" where
  "Inserts_b [] t = Some t"
| "Inserts_b ((value, data) # kvs) t =
     do { t' \<leftarrow> Tree_Insert_b value data t; Inserts_b kvs t' }"

section \<open>Invariants and abstractions of the generic tree\<close>

text \<open>The true height of a subtree, computed from its shape; a missing child has height 0.\<close>

fun ht :: "('k, 'd) node \<Rightarrow> int" where
  "ht Null = 0"
| "ht (Node v d l r h) = max (ht l) (ht r) + 1"

text \<open>Every cached \<^verbatim>\<open>height\<close> field holds the true height of its node.\<close>

fun cached_ok :: "('k, 'd) node \<Rightarrow> bool" where
  "cached_ok Null = True"
| "cached_ok (Node v d l r h) = (cached_ok l \<and> cached_ok r \<and> h = max (ht l) (ht r) + 1)"

text \<open>The AVL invariant: at every node the heights of the two subtrees differ by at most 1.\<close>

fun avl :: "('k, 'd) node \<Rightarrow> bool" where
  "avl Null = True"
| "avl (Node v d l r h) = (avl l \<and> avl r \<and> \<bar>ht r - ht l\<bar> \<le> 1)"

text \<open>The keys of a subtree, and its (key, data) pairs in in-order.\<close>

fun keys_of :: "('k, 'd) node \<Rightarrow> 'k set" where
  "keys_of Null = {}"
| "keys_of (Node v d l r h) = keys_of l \<union> {v} \<union> keys_of r"

fun entries :: "('k, 'd) node \<Rightarrow> ('k \<times> 'd) list" where
  "entries Null = []"
| "entries (Node v d l r h) = entries l @ (v, d) # entries r"

text \<open>
  The search-tree invariant: at every node, the keys of the left subtree are strictly less
  than the node's key and the keys of the right subtree strictly greater.
\<close>

fun bst :: "('k::linorder, 'd) node \<Rightarrow> bool" where
  "bst Null = True"
| "bst (Node v d l r h) =
     (bst l \<and> bst r \<and> (\<forall>k \<in> keys_of l. k < v) \<and> (\<forall>k \<in> keys_of r. v < k))"

text \<open>The non-nil nodes of a subtree, each with the subtree it roots, in in-order.\<close>

fun nodes :: "('k, 'd) node \<Rightarrow> ('k, 'd) node list" where
  "nodes Null = []"
| "nodes (Node v d l r h) = nodes l @ Node v d l r h # nodes r"

text \<open>The properties of a single node that the invariants above demand of every node.\<close>

fun node_avl :: "('k, 'd) node \<Rightarrow> bool" where
  "node_avl Null = True"
| "node_avl (Node v d l r h) = (\<bar>ht r - ht l\<bar> \<le> 1)"

fun node_bst :: "('k::linorder, 'd) node \<Rightarrow> bool" where
  "node_bst Null = True"
| "node_bst (Node v d l r h) = ((\<forall>k \<in> keys_of l. k < v) \<and> (\<forall>k \<in> keys_of r. v < k))"

text \<open>Storing a pair in a key-sorted association list: the map-level meaning of an insert.\<close>

fun upd :: "'k::linorder \<Rightarrow> 'd \<Rightarrow> ('k \<times> 'd) list \<Rightarrow> ('k \<times> 'd) list" where
  "upd k d [] = [(k, d)]"
| "upd k d ((a, b) # xs) =
     (if k < a then (k, d) # (a, b) # xs
      else if k = a then (a, d) # xs
      else (a, b) # upd k d xs)"

text \<open>
  The two shape invariants of the data model together: AVL balance, and cached heights
  that are the true heights.
\<close>

definition good :: "('k, 'd) node \<Rightarrow> bool" where
  "good t = (avl t \<and> cached_ok t)"

text \<open>The shape of a subtree: its keys, links and cached heights, without the data.\<close>

fun shape :: "('k, 'd) node \<Rightarrow> ('k, unit) node" where
  "shape Null = Null"
| "shape (Node v d l r h) = Node v () (shape l) (shape r) h"

text \<open>Replacing the data stored under a key, along the search path, and nothing else.\<close>

fun overwrite :: "'k::linorder \<Rightarrow> 'd \<Rightarrow> ('k, 'd) node \<Rightarrow> ('k, 'd) node" where
  "overwrite k d Null = Null"
| "overwrite k d (Node v dat l r h) =
     (if v = k then Node v d l r h
      else if k < v then Node v dat (overwrite k d l) r h
      else Node v dat l (overwrite k d r) h)"

text \<open>
  The arguments of the \<^verbatim>\<open>rebalance\<close> calls that one \<^verbatim>\<open>Node.Insert\<close> makes, innermost first:
  the recursion of \<open>Insert\<close> with the node it hands to \<open>rebalance\<close> recorded at each level.
\<close>

fun rebalance_calls :: "'k::linorder \<Rightarrow> 'd \<Rightarrow> ('k, 'd) node \<Rightarrow> ('k, 'd) node list" where
  "rebalance_calls value data Null = []"
| "rebalance_calls value data (Node v d l r h) =
     (if v = value then []
      else if value < v then
        (case Insert value data l of
           None \<Rightarrow> rebalance_calls value data l
         | Some l' \<Rightarrow> rebalance_calls value data l @
             [Node v d l' r (max_go (Height l') (Height r) + 1)])
      else
        (case Insert value data r of
           None \<Rightarrow> rebalance_calls value data r
         | Some r' \<Rightarrow> rebalance_calls value data r @
             [Node v d l r' (max_go (Height l) (Height r') + 1)]))"

text \<open>A visitor that appends the key of the visited node to a log, and one that logs the node.\<close>

fun visit_key :: "('k, 'd) node \<Rightarrow> 'k list \<Rightarrow> 'k list" where
  "visit_key Null log = log"
| "visit_key (Node v d l r h) log = log @ [v]"


section \<open>Invariants and abstractions of the parent-pointer tree\<close>

fun entries_b :: "bnode \<Rightarrow> (string \<times> string) list" where
  "entries_b BNull = []"
| "entries_b (BNode v d l r b) = entries_b l @ (v, d) # entries_b r"

text \<open>The true height of a subtree of the parent-pointer tree.\<close>

fun ht_b :: "bnode \<Rightarrow> int" where
  "ht_b BNull = 0"
| "ht_b (BNode v d l r b) = max (ht_b l) (ht_b r) + 1"

text \<open>
  The balance factor of a node as the comment on the \<^verbatim>\<open>bal\<close> field defines it: the true height of
  the right subtree minus the true height of the left subtree.
\<close>

fun true_bal_b :: "bnode \<Rightarrow> int" where
  "true_bal_b BNull = 0"
| "true_bal_b (BNode v d l r b) = ht_b r - ht_b l"

text \<open>
  What the stored balance factors satisfy in every tree that the inserts build, and what
  keeps the rotations from dereferencing nil: each is -1, 0 or 1, and a node that leans to
  a side has a child on that side.
\<close>

fun binv :: "bnode \<Rightarrow> bool" where
  "binv BNull = True"
| "binv (BNode v d l r b) =
     (binv l \<and> binv r \<and> (b = -1 \<or> b = 0 \<or> b = 1) \<and>
      (b = -1 \<longrightarrow> l \<noteq> BNull) \<and> (b = 1 \<longrightarrow> r \<noteq> BNull))"


fun visit_key_b :: "bnode \<Rightarrow> string list \<Rightarrow> string list" where
  "visit_key_b BNull log = log"
| "visit_key_b (BNode v d l r b) log = log @ [v]"

text \<open>
  The arguments of the \<^verbatim>\<open>rebalance\<close> calls that one \<^verbatim>\<open>Node.Insert\<close> of the parent-pointer
  tree makes, innermost first: \<open>pending n1\<close> is the guard \<^verbatim>\<open>n.bal < -1 || n.bal > 1\<close> around
  the call, and \<open>rebalance_calls_b\<close> follows the recursion of \<open>Insert_b\<close>.
\<close>

fun pending :: "bnode \<Rightarrow> bnode list" where
  "pending BNull = []"
| "pending (BNode v d l r b) = (if b < -1 \<or> b > 1 then [BNode v d l r b] else [])"

fun rebalance_calls_b :: "string \<Rightarrow> string \<Rightarrow> bnode \<Rightarrow> bnode list" where
  "rebalance_calls_b value data BNull = []"
| "rebalance_calls_b value data (BNode v d l r b) =
     (if value = v then []
      else if value < v then
        (if l = BNull then
           pending (BNode v d (BNode value data BNull BNull 0) r (if r = BNull then -1 else 0))
         else rebalance_calls_b value data l @
           (case Insert_b value data l of
              None \<Rightarrow> []
            | Some (l', grown) \<Rightarrow> pending (BNode v d l' r (if grown then b - 1 else b))))
      else
        (if r = BNull then
           pending (BNode v d l (BNode value data BNull BNull 0) (if l = BNull then 1 else 0))
         else rebalance_calls_b value data r @
           (case Insert_b value data r of
              None \<Rightarrow> []
            | Some (r', grown) \<Rightarrow> pending (BNode v d l r' (if grown then b + 1 else b)))))"

section \<open>Basic facts\<close>

lemma max_go_max: "max_go a b = max a b"
  by (auto simp add: max_go_def max_def)

lemma ht_nonneg: "0 \<le> ht t"
  by (induction t) auto

lemma ht_Node_pos: "0 < ht (Node v d l r h)"
  using ht_nonneg[of l] ht_nonneg[of r] by simp

lemma ht_zero_iff: "ht t = 0 \<longleftrightarrow> t = Null"
proof (cases t)
  case Null
  then show ?thesis by simp
next
  case (Node v d l r h)
  then show ?thesis using ht_Node_pos[of v d l r h] by simp
qed

lemma Height_ht: "cached_ok t \<Longrightarrow> Height t = ht t"
  by (cases t) auto

lemma rebalance_noop:
  "-1 \<le> Height r - Height l \<Longrightarrow> Height r - Height l \<le> 1 \<Longrightarrow>
   rebalance (Node v d l r h) = Some (Node v d l r h)"
  by (simp add: Let_def)

lemma rebalance_left_left:
  "Height r - Height l < -1 \<Longrightarrow> Bal l = Some (-1) \<Longrightarrow>
   rebalance (Node v d l r h) = rotateRight (Node v d l r h)"
  by (simp add: Let_def Bal_is_def)

lemma rebalance_left_right:
  "Height r - Height l < -1 \<Longrightarrow> Bal l = Some 1 \<Longrightarrow>
   rebalance (Node v d l r h) = rotateLeftRight (Node v d l r h)"
  by (simp add: Let_def Bal_is_def)

lemma rebalance_right_right:
  "Height r - Height l > 1 \<Longrightarrow> Bal r = Some 1 \<Longrightarrow>
   rebalance (Node v d l r h) = rotateLeft (Node v d l r h)"
  by (simp add: Let_def Bal_is_def)

lemma rebalance_right_left:
  "Height r - Height l > 1 \<Longrightarrow> Bal r = Some (-1) \<Longrightarrow>
   rebalance (Node v d l r h) = rotateRightLeft (Node v d l r h)"
  by (simp add: Let_def Bal_is_def)

lemma good_Null: "good Null" by (simp add: good_def)

lemma good_Node:
  "good (Node v d l r h) \<longleftrightarrow> good l \<and> good r \<and> \<bar>ht r - ht l\<bar> \<le> 1 \<and> h = max (ht l) (ht r) + 1"
  by (auto simp: good_def)

lemma rotateRight_good:
  assumes "good ll" "good lr" "good r" "ht ll = ht r + 1" "ht lr = ht r"
  shows "\<exists>t'. rotateRight (Node v d (Node lv ld ll lr lh) r h) = Some t' \<and> good t' \<and> ht t' = ht r + 2"
  using assms by (simp add: good_Node Let_def max_go_max Height_ht good_def)

lemma rotateLeft_good:
  assumes "good l" "good rl" "good rr" "ht rr = ht l + 1" "ht rl = ht l"
  shows "\<exists>t'. rotateLeft (Node v d l (Node rv rd rl rr rh) h) = Some t' \<and> good t' \<and> ht t' = ht l + 2"
  using assms by (simp add: good_Node Let_def max_go_max Height_ht good_def)

lemma rotateLeftRight_good:
  assumes "good ll" "good cl" "good cr" "good r" "max (ht cl) (ht cr) = ht r" "ht ll = ht r"
    "\<bar>ht cr - ht cl\<bar> \<le> 1"
  shows "\<exists>t'. rotateLeftRight (Node v d (Node lv ld ll (Node cv cd cl cr ch) lh) r h) = Some t'
     \<and> good t' \<and> ht t' = ht r + 2"
  using assms by (auto simp add: good_Node Let_def max_go_max Height_ht good_def) 

lemma rotateRightLeft_good:
  assumes "good l" "good cl" "good cr" "good rr" "max (ht cl) (ht cr) = ht l" "ht rr = ht l"
    "\<bar>ht cr - ht cl\<bar> \<le> 1"
  shows "\<exists>t'. rotateRightLeft (Node v d l (Node rv rd (Node cv cd cl cr ch) rr rh) h) = Some t'
     \<and> good t' \<and> ht t' = ht l + 2"
  using assms by (auto simp add: good_Node Let_def max_go_max Height_ht good_def) 


lemma Bal_Node_good: "good (Node v d l r h) \<Longrightarrow> Bal (Node v d l r h) = Some (ht r - ht l)"
  by (simp add: good_Node Height_ht good_def)


lemma rebalance_after_left:
  assumes l': "good l'" "l' \<noteq> Null" and gr: "good r"
    and bal: "\<bar>ht r - hl\<bar> \<le> 1" and hl0: "0 \<le> hl"
    and hl': "ht l' = hl \<or> (ht l' = hl + 1 \<and> (hl \<noteq> 0 \<longrightarrow> Bal l' \<noteq> Some 0))"
  shows "\<exists>t'. rebalance (Node v dat l' r (max_go (Height l') (Height r) + 1)) = Some t' \<and>
     good t' \<and> t' \<noteq> Null \<and>
     (ht t' = max hl (ht r) + 1 \<or> (ht t' = max hl (ht r) + 2 \<and> Bal t' \<noteq> Some 0))"
proof -
  let ?n = "Node v dat l' r (max_go (Height l') (Height r) + 1)"
  have Hl': "Height l' = ht l'" and Hr: "Height r = ht r"
    using l' gr by (simp_all add: good_def Height_ht)
  show ?thesis
  proof (cases "ht r - ht l' < -1")
    case False
    then have "rebalance ?n = Some ?n"
      using bal hl' Hl' Hr by (intro rebalance_noop) auto
    moreover have "good ?n"
      using False bal hl' l' gr by (auto simp: good_Node max_go_max Hl' Hr)
    moreover have "ht ?n = max hl (ht r) + 1 \<or> (ht ?n = max hl (ht r) + 2 \<and> Bal ?n \<noteq> Some 0)"
      using False bal hl' by (auto simp: Hl' Hr)
    ultimately show ?thesis by simp
  next
    case True
    with bal hl' hl0 have e: "ht l' = hl + 1" "hl = ht r + 1" "Bal l' \<noteq> Some 0"
      using ht_nonneg[of r] by auto
    from l'(2) obtain lv ld ll lr lh where leq: "l' = Node lv ld ll lr lh"
      by (cases l') auto
    from l'(1) leq have gll: "good ll" and glr: "good lr" and lbal: "\<bar>ht lr - ht ll\<bar> \<le> 1"
      by (simp_all add: good_Node)
    have bl': "Bal l' = Some (ht lr - ht ll)"
      using l'(1) unfolding leq by (rule Bal_Node_good)
    show ?thesis
    proof (cases "ht lr - ht ll = -1")
      case True
      then have "rebalance ?n = rotateRight ?n"
        using \<open>ht r - ht l' < -1\<close> bl' Hl' Hr by (intro rebalance_left_left) auto
      moreover have "\<exists>t'. rotateRight (Node v dat (Node lv ld ll lr lh) r
            (max_go (Height l') (Height r) + 1)) = Some t' \<and> good t' \<and> ht t' = ht r + 2"
        using True e leq by (intro rotateRight_good gll glr gr) auto
      ultimately show ?thesis using leq e by auto
    next
      case False
      then have one: "ht lr - ht ll = 1"
        using lbal e(3) bl' by auto
      then have "rebalance ?n = rotateLeftRight ?n"
        using \<open>ht r - ht l' < -1\<close> bl' Hl' Hr by (intro rebalance_left_right) auto
      moreover obtain cv cd cl cr ch where ceq: "lr = Node cv cd cl cr ch"
        using one ht_nonneg[of ll] ht_zero_iff[of lr] by (cases lr) auto
      moreover have "\<exists>t'. rotateLeftRight (Node v dat (Node lv ld ll (Node cv cd cl cr ch) lh) r
            (max_go (Height l') (Height r) + 1)) = Some t' \<and> good t' \<and> ht t' = ht r + 2"
        using one e leq ceq glr by (intro rotateLeftRight_good gll gr) (auto simp: good_Node)
      ultimately show ?thesis using leq e by auto
    qed
  qed
qed

lemma rebalance_after_right:
  assumes r': "good r'" "r' \<noteq> Null" and gl: "good l"
    and bal: "\<bar>hr - ht l\<bar> \<le> 1" and hr0: "0 \<le> hr"
    and hr': "ht r' = hr \<or> (ht r' = hr + 1 \<and> (hr \<noteq> 0 \<longrightarrow> Bal r' \<noteq> Some 0))"
  shows "\<exists>t'. rebalance (Node v dat l r' (max_go (Height l) (Height r') + 1)) = Some t' \<and>
     good t' \<and> t' \<noteq> Null \<and>
     (ht t' = max (ht l) hr + 1 \<or> (ht t' = max (ht l) hr + 2 \<and> Bal t' \<noteq> Some 0))"
proof -
  let ?n = "Node v dat l r' (max_go (Height l) (Height r') + 1)"
  have Hr': "Height r' = ht r'" and Hl: "Height l = ht l"
    using r' gl by (simp_all add: good_def Height_ht)
  show ?thesis
  proof (cases "ht r' - ht l > 1")
    case False
    then have "rebalance ?n = Some ?n"
      using bal hr' Hr' Hl by (intro rebalance_noop) auto
    moreover have "good ?n"
      using False bal hr' r' gl by (auto simp: good_Node max_go_max Hr' Hl)
    moreover have "ht ?n = max (ht l) hr + 1 \<or> (ht ?n = max (ht l) hr + 2 \<and> Bal ?n \<noteq> Some 0)"
      using False bal hr' by (auto simp: Hr' Hl)
    ultimately show ?thesis by simp
  next
    case True
    with bal hr' hr0 have e: "ht r' = hr + 1" "hr = ht l + 1" "Bal r' \<noteq> Some 0"
      using ht_nonneg[of l] by auto
    from r'(2) obtain rv rd rl rr rh where req: "r' = Node rv rd rl rr rh"
      by (cases r') auto
    from r'(1) req have grl: "good rl" and grr: "good rr" and rbal: "\<bar>ht rr - ht rl\<bar> \<le> 1"
      by (simp_all add: good_Node)
    have br': "Bal r' = Some (ht rr - ht rl)"
      using r'(1) unfolding req by (rule Bal_Node_good)
    show ?thesis
    proof (cases "ht rr - ht rl = 1")
      case True
      then have "rebalance ?n = rotateLeft ?n"
        using \<open>ht r' - ht l > 1\<close> br' Hr' Hl by (intro rebalance_right_right) auto
      moreover have "\<exists>t'. rotateLeft (Node v dat l (Node rv rd rl rr rh)
            (max_go (Height l) (Height r') + 1)) = Some t' \<and> good t' \<and> ht t' = ht l + 2"
        using True e req by (intro rotateLeft_good grl grr gl) auto
      ultimately show ?thesis using req e by auto
    next
      case False
      then have one: "ht rr - ht rl = -1"
        using rbal e(3) br' by auto
      then have "rebalance ?n = rotateRightLeft ?n"
        using \<open>ht r' - ht l > 1\<close> br' Hr' Hl by (intro rebalance_right_left) auto
      moreover obtain cv cd cl cr ch where ceq: "rl = Node cv cd cl cr ch"
        using one ht_nonneg[of rr] ht_zero_iff[of rl] by (cases rl) auto
      moreover have "\<exists>t'. rotateRightLeft (Node v dat l (Node rv rd (Node cv cd cl cr ch) rr rh)
            (max_go (Height l) (Height r') + 1)) = Some t' \<and> good t' \<and> ht t' = ht l + 2"
        using one e req ceq grl by (intro rotateRightLeft_good grr gl) (auto simp: good_Node)
      ultimately show ?thesis using req e by auto
    qed
  qed
qed

lemma Insert_good:
  "good t \<Longrightarrow> \<exists>t'. Insert k d t = Some t' \<and> good t' \<and> t' \<noteq> Null \<and>
     (ht t' = ht t \<or> (ht t' = ht t + 1 \<and> (ht t \<noteq> 0 \<longrightarrow> Bal t' \<noteq> Some 0)))"
proof (induction t)
  case Null
  then show ?case by (simp add: good_def)
next
  case (Node v dat l r h)
  from Node.prems have gl: "good l" and gr: "good r" and bal: "\<bar>ht r - ht l\<bar> \<le> 1"
    by (simp_all add: good_Node)
  show ?case
  proof (cases "v = k")
    case True
    then show ?thesis using Node.prems by (simp add: good_Node)
  next
    case False
    show ?thesis
    proof (cases "k < v")
      case True
      from Node.IH(1)[OF gl] obtain l' where l': "Insert k d l = Some l'" "good l'" "l' \<noteq> Null"
        and hl': "ht l' = ht l \<or> (ht l' = ht l + 1 \<and> (ht l \<noteq> 0 \<longrightarrow> Bal l' \<noteq> Some 0))"
        by blast
      have "Insert k d (Node v dat l r h) =
          rebalance (Node v dat l' r (max_go (Height l') (Height r) + 1))"
        using \<open>v \<noteq> k\<close> True l' by simp
      with rebalance_after_left[OF l'(2,3) gr bal ht_nonneg hl', of v dat]
      show ?thesis using ht_Node_pos[of v dat l r h] by auto
    next
      case nless: False
      from Node.IH(2)[OF gr] obtain r' where r': "Insert k d r = Some r'" "good r'" "r' \<noteq> Null"
        and hr': "ht r' = ht r \<or> (ht r' = ht r + 1 \<and> (ht r \<noteq> 0 \<longrightarrow> Bal r' \<noteq> Some 0))"
        by blast
      have "Insert k d (Node v dat l r h) =
          rebalance (Node v dat l r' (max_go (Height l) (Height r') + 1))"
        using \<open>v \<noteq> k\<close> nless r' by simp
      with rebalance_after_right[OF r'(2,3) gl bal ht_nonneg hr', of v dat]
      show ?thesis using ht_Node_pos[of v dat l r h] by auto
    qed
  qed
qed

section \<open>Insertion and the in-order sequence\<close>

lemma set_entries: "fst ` set (entries t) = keys_of t"
  by (induction t) (auto simp: image_Un)

lemma bst_sorted: "bst t \<longleftrightarrow> sorted_wrt (<) (map fst (entries t))"
  by (induction t) (auto simp: sorted_wrt_append set_entries dest: less_trans)

lemma rotateLeft_entries: "rotateLeft t = Some t' \<Longrightarrow> entries t' = entries t"
  by (induction t rule: rotateLeft.induct) (auto simp: Let_def)

lemma rotateRight_entries: "rotateRight t = Some t' \<Longrightarrow> entries t' = entries t"
  by (induction t rule: rotateRight.induct) (auto simp: Let_def)

lemma set_height_entries: "set_height t = Some t' \<Longrightarrow> entries t' = entries t"
  by (cases t) auto

lemma rotateLeftRight_entries: "rotateLeftRight t = Some t' \<Longrightarrow> entries t' = entries t"
  by (cases t) (auto simp: bind_eq_Some_conv dest!: rotateLeft_entries rotateRight_entries set_height_entries)

lemma rotateRightLeft_entries: "rotateRightLeft t = Some t' \<Longrightarrow> entries t' = entries t"
  by (cases t) (auto simp: bind_eq_Some_conv dest!: rotateLeft_entries rotateRight_entries set_height_entries)

lemma rebalance_entries: "rebalance t = Some t' \<Longrightarrow> entries t' = entries t"
  by (cases t) (auto simp: Let_def bind_eq_Some_conv
      simp del: rotateLeftRight.simps rotateRightLeft.simps rotateLeft.simps rotateRight.simps
      split: if_splits
      dest: rotateLeft_entries rotateRight_entries rotateLeftRight_entries rotateRightLeft_entries)

lemma upd_append_less:
  "\<forall>a \<in> fst ` set xs. a < v \<Longrightarrow> k < v \<Longrightarrow> upd k d (xs @ (v, b) # ys) = upd k d xs @ (v, b) # ys"
  by (induction xs) auto

lemma upd_append_eq:
  "\<forall>a \<in> fst ` set xs. a < v \<Longrightarrow> upd v d (xs @ (v, b) # ys) = xs @ (v, d) # ys"
  by (induction xs) auto

lemma upd_append_greater:
  "\<forall>a \<in> fst ` set xs. a < v \<Longrightarrow> v < k \<Longrightarrow> upd k d (xs @ (v, b) # ys) = xs @ (v, b) # upd k d ys"
  by (induction xs) auto

lemma Insert_entries:
  "bst t \<Longrightarrow> Insert k d t = Some t' \<Longrightarrow> entries t' = upd k d (entries t)"
proof (induction t arbitrary: t')
  case Null
  then show ?case by auto
next
  case (Node v dat l r h)
  have lt: "\<forall>a \<in> fst ` set (entries l). a < v"
    using Node.prems(1) by (simp add: set_entries)
  show ?case
  proof (cases "v = k")
    case True
    then show ?thesis using Node.prems lt by (auto simp: upd_append_eq)
  next
    case False
    show ?thesis
    proof (cases "k < v")
      case True
      with False Node.prems obtain l' where l': "Insert k d l = Some l'"
        and rb: "rebalance (Node v dat l' r (max_go (Height l') (Height r) + 1)) = Some t'"
        by (auto simp: bind_eq_Some_conv)
      have "entries l' = upd k d (entries l)" using Node.IH(1) Node.prems(1) l' by simp
      then show ?thesis using rebalance_entries[OF rb] True lt by (simp add: upd_append_less)
    next
      case nless: False
      with False Node.prems obtain r' where r': "Insert k d r = Some r'"
        and rb: "rebalance (Node v dat l r' (max_go (Height l) (Height r') + 1)) = Some t'"
        by (auto simp: bind_eq_Some_conv)
      have "entries r' = upd k d (entries r)" using Node.IH(2) Node.prems(1) r' by simp
      moreover have "v < k" using False nless by simp
      ultimately show ?thesis using rebalance_entries[OF rb] lt by (simp add: upd_append_greater)
    qed
  qed
qed

lemma set_upd: "fst ` set (upd k d xs) = insert k (fst ` set xs)"
  by (induction k d xs rule: upd.induct) (simp_all add: insert_commute)

lemma sorted_upd: "sorted_wrt (<) (map fst xs) \<Longrightarrow> sorted_wrt (<) (map fst (upd k d xs))"
proof (induction xs)
  case Nil then show ?case by simp
next
  case (Cons x xs)
  obtain a b where x: "x = (a, b)" by (cases x)
  show ?case using Cons set_upd[of k d xs] unfolding x by (auto simp: image_iff) 
qed

lemma Insert_bst: "bst t \<Longrightarrow> Insert k d t = Some t' \<Longrightarrow> bst t'"
  using Insert_entries[of t k d t'] by (simp add: bst_sorted sorted_upd)

lemma Insert_keys: "bst t \<Longrightarrow> Insert k d t = Some t' \<Longrightarrow> keys_of t' = insert k (keys_of t)"
  using Insert_entries[of t k d t'] set_upd[of k d "entries t"] set_entries[of t'] set_entries[of t]
  by simp

lemma Tree_Insert_good:
  assumes "good root"
  shows "\<exists>root'. Insert k d root = Some root' \<and> good root' \<and> root' \<noteq> Null \<and>
    root_imbalanced root' = Some False \<and> Tree_Insert k d (Tree root) = Some (Tree root')"
proof -
  from Insert_good[OF assms, of k d] obtain root' where
    r: "Insert k d root = Some root'" "good root'" "root' \<noteq> Null" by blast
  then obtain v dat l r h where n: "root' = Node v dat l r h" by (cases root') auto
  with r(2) have "Bal root' = Some (ht r - ht l)" "\<bar>ht r - ht l\<bar> \<le> 1"
    by (simp_all add: good_Node Bal_Node_good del: Bal.simps)
  then have "root_imbalanced root' = Some False"
    by (auto simp: root_imbalanced_def)
  then show ?thesis using r by simp
qed

lemma Inserts_invariant:
  assumes "good root" "bst root"
  shows "\<exists>root'. Inserts kvs (Tree root) = Some (Tree root') \<and> good root' \<and> bst root' \<and>
    entries root' = fold (\<lambda>(k, d). upd k d) kvs (entries root)"
  using assms
proof (induction kvs arbitrary: root)
  case Nil
  then show ?case by simp
next
  case (Cons kv kvs)
  obtain k d where kv: "kv = (k, d)" by (cases kv)
  from Tree_Insert_good[OF Cons.prems(1), of k d] obtain r1 where
    r1: "Insert k d root = Some r1" "good r1" "Tree_Insert k d (Tree root) = Some (Tree r1)"
    by blast
  have b1: "bst r1" using Insert_bst[OF Cons.prems(2) r1(1)] .
  have e1: "entries r1 = upd k d (entries root)" using Insert_entries[OF Cons.prems(2) r1(1)] .
  from Cons.IH[OF r1(2) b1] obtain root' where
    "Inserts kvs (Tree r1) = Some (Tree root')" "good root'" "bst root'"
    "entries root' = fold (\<lambda>(k, d). upd k d) kvs (entries r1)" by blast
  then show ?case using r1(3) e1 by (simp add: kv)
qed

lemma nodes_good: "good t \<Longrightarrow> n \<in> set (nodes t) \<Longrightarrow> good n \<and> n \<noteq> Null"
  by (induction t) (auto simp: good_Node good_Null)

lemma nodes_avl: "avl t \<Longrightarrow> n \<in> set (nodes t) \<Longrightarrow> node_avl n"
  by (induction t) auto

lemma nodes_bst: "bst t \<Longrightarrow> n \<in> set (nodes t) \<Longrightarrow> node_bst n"
  by (induction t) auto

lemma Bal_range: "good n \<Longrightarrow> n \<noteq> Null \<Longrightarrow> Bal n \<in> {Some (-1), Some 0, Some 1}"
  by (cases n) (auto simp: good_Node Bal_Node_good simp del: Bal.simps)

lemma Traverse_fold: "Traverse t n f s = fold f (nodes n) s"
  by (induction n arbitrary: s) auto

lemma fold_visit_key: "fold visit_key (nodes n) log = log @ map fst (entries n)"
  by (induction n arbitrary: log) auto

lemma fold_upd_keys: "fst ` set (fold (\<lambda>(k, d). upd k d) kvs xs) = fst ` set kvs \<union> fst ` set xs"
  by (induction kvs arbitrary: xs) (auto simp: set_upd split: prod.splits)

lemma strict_sorted_unique:
  "sorted_wrt (<) (xs :: 'a::linorder list) \<Longrightarrow> xs = sorted_list_of_set (set xs)"
  by (metis sorted_list_of_set.idem_if_sorted_distinct strict_sorted_iff)

section \<open>Overwriting, lookup and traversal\<close>

lemma shape_overwrite: "shape (overwrite k d t) = shape t"
  by (induction t) auto

lemma Height_shape: "Height (shape t) = Height t"
  by (cases t) auto

lemma Height_overwrite: "Height (overwrite k d t) = Height t"
  using Height_shape[of "overwrite k d t"] Height_shape[of t] by (simp add: shape_overwrite)

lemma Bal_shape: "Bal (shape t) = Bal t"
  by (cases t) (auto simp: Height_shape)

lemma nodes_shape: "nodes (shape t) = map shape (nodes t)"
  by (induction t) auto

lemma Bal_nodes_shape: "map Bal (nodes (shape u)) = map Bal (nodes u)"
  by (simp add: nodes_shape Bal_shape comp_def)

lemma Height_nodes_shape: "map Height (nodes (shape u)) = map Height (nodes u)"
  by (simp add: nodes_shape Height_shape comp_def)

lemma shape_eq_Bal:
  assumes "shape t' = shape t"
  shows "map Bal (nodes t') = map Bal (nodes t) \<and> map Height (nodes t') = map Height (nodes t)"
  using assms Bal_nodes_shape[of t] Bal_nodes_shape[of t']
    Height_nodes_shape[of t] Height_nodes_shape[of t'] by simp

lemma Insert_overwrite:
  "good t \<Longrightarrow> bst t \<Longrightarrow> k \<in> keys_of t \<Longrightarrow> Insert k d t = Some (overwrite k d t)"
proof (induction t)
  case Null
  then show ?case by simp
next
  case (Node v dat l r h)
  from Node.prems(1) have g: "good l" "good r" "\<bar>ht r - ht l\<bar> \<le> 1" "h = max (ht l) (ht r) + 1"
    by (simp_all add: good_Node)
  then have H: "Height l = ht l" "Height r = ht r"
    by (simp_all add: good_def Height_ht)
  show ?case
  proof (cases "v = k")
    case True
    then show ?thesis by simp
  next
    case False
    show ?thesis
    proof (cases "k < v")
      case True
      with Node.prems False have "k \<in> keys_of l" by auto
      with Node.IH(1) g(1) Node.prems(2) have "Insert k d l = Some (overwrite k d l)" by simp
      moreover have "rebalance (Node v dat (overwrite k d l) r h) = Some (Node v dat (overwrite k d l) r h)"
        using g(3) H by (intro rebalance_noop) (auto simp: Height_overwrite)
      ultimately show ?thesis using False True g(4) H
        by (simp add: Height_overwrite max_go_max del: rebalance.simps)
    next
      case nless: False
      with Node.prems False have "k \<in> keys_of r" by auto
      with Node.IH(2) g(2) Node.prems(2) have "Insert k d r = Some (overwrite k d r)" by simp
      moreover have "rebalance (Node v dat l (overwrite k d r) h) = Some (Node v dat l (overwrite k d r) h)"
        using g(3) H by (intro rebalance_noop) (auto simp: Height_overwrite)
      ultimately show ?thesis using False nless g(4) H
        by (simp add: Height_overwrite max_go_max del: rebalance.simps)
    qed
  qed
qed

lemma overwrite_calls:
  "good t \<Longrightarrow> bst t \<Longrightarrow> k \<in> keys_of t \<Longrightarrow> n \<in> set (rebalance_calls k d t) \<Longrightarrow>
   rebalance n = Some n"
proof (induction t)
  case Null
  then show ?case by simp
next
  case (Node v dat l r h)
  from Node.prems(1) have g: "good l" "good r" "\<bar>ht r - ht l\<bar> \<le> 1" "h = max (ht l) (ht r) + 1"
    by (simp_all add: good_Node)
  then have H: "Height l = ht l" "Height r = ht r"
    by (simp_all add: good_def Height_ht)
  show ?case
  proof (cases "v = k")
    case True
    then show ?thesis using Node.prems(4) by simp
  next
    case False
    show ?thesis
    proof (cases "k < v")
      case True
      with Node.prems False have kl: "k \<in> keys_of l" by auto
      have i: "Insert k d l = Some (overwrite k d l)"
        using Insert_overwrite[OF g(1) _ kl] Node.prems(2) by simp
      from Node.prems(4) False True i
      consider "n \<in> set (rebalance_calls k d l)"
        | "n = Node v dat (overwrite k d l) r (max_go (Height (overwrite k d l)) (Height r) + 1)"
        by auto
      then show ?thesis
      proof cases
        case 1
        then show ?thesis using Node.IH(1) g(1) Node.prems(2) kl by simp
      next
        case 2
        then show ?thesis using g(3) H by (simp add: rebalance_noop Height_overwrite del: rebalance.simps)
      qed
    next
      case nless: False
      with Node.prems False have kr: "k \<in> keys_of r" by auto
      have i: "Insert k d r = Some (overwrite k d r)"
        using Insert_overwrite[OF g(2) _ kr] Node.prems(2) by simp
      from Node.prems(4) False nless i
      consider "n \<in> set (rebalance_calls k d r)"
        | "n = Node v dat l (overwrite k d r) (max_go (Height l) (Height (overwrite k d r)) + 1)"
        by auto
      then show ?thesis
      proof cases
        case 1
        then show ?thesis using Node.IH(2) g(2) Node.prems(2) kr by simp
      next
        case 2
        then show ?thesis using g(3) H by (simp add: rebalance_noop Height_overwrite del: rebalance.simps)
      qed
    qed
  qed
qed

lemma Find_absent: "s \<notin> keys_of t \<Longrightarrow> Find zero s t = (zero, False)"
  by (induction t) auto

lemma entries_key: "(s, b) \<in> set (entries t) \<Longrightarrow> s \<in> keys_of t"
  using set_entries[of t] by (metis fst_conv image_eqI)

lemma Find_present: "bst t \<Longrightarrow> (s, d) \<in> set (entries t) \<Longrightarrow> Find zero s t = (d, True)"
proof (induction t)
  case Null
  then show ?case by simp
next
  case (Node v dat l r h)
  from Node.prems(1) have b: "bst l" "bst r" "\<forall>k \<in> keys_of l. k < v" "\<forall>k \<in> keys_of r. v < k"
    by simp_all
  from Node.prems(2) have "(s, d) \<in> set (entries l) \<or> (s = v \<and> d = dat) \<or> (s, d) \<in> set (entries r)"
    by auto
  then consider "(s, d) \<in> set (entries l)" | "s = v \<and> d = dat" | "(s, d) \<in> set (entries r)"
    by blast
  then show ?case
  proof cases
    case 1
    from entries_key[OF 1] b(3) have "s < v" by simp
    then have "s \<noteq> v" by auto
    with \<open>s < v\<close> show ?thesis using Node.IH(1)[OF b(1) 1] by simp
  next
    case 2
    then show ?thesis by simp
  next
    case 3
    from entries_key[OF 3] b(4) have "v < s" by simp
    then have "\<not> s < v" "s \<noteq> v" by auto
    then show ?thesis using Node.IH(2)[OF b(2) 3] by simp
  qed
qed


lemma Find_overwrite_same: "bst t \<Longrightarrow> k \<in> keys_of t \<Longrightarrow> Find zero k (overwrite k d t) = (d, True)"
proof (induction t)
  case Null
  then show ?case by simp
next
  case (Node v dat l r h)
  from Node.prems(1) have b: "bst l" "bst r" "\<forall>k \<in> keys_of l. k < v" "\<forall>k \<in> keys_of r. v < k"
    by simp_all
  from Node.prems(2) consider "k \<in> keys_of l" | "k = v" | "k \<in> keys_of r"
    by auto
  then show ?case
  proof cases
    case 1
    then have "k < v" using b(3) by blast
    then have "v \<noteq> k" by auto
    with \<open>k < v\<close> show ?thesis using Node.IH(1)[OF b(1) 1] by simp
  next
    case 2
    then show ?thesis by simp
  next
    case 3
    then have "v < k" using b(4) by blast
    then have "\<not> k < v" "v \<noteq> k" by auto
    then show ?thesis using Node.IH(2)[OF b(2) 3] by simp
  qed
qed


lemma Find_overwrite_other: "s \<noteq> k \<Longrightarrow> Find zero s (overwrite k d t) = Find zero s t"
  by (induction t) auto
lemma Tree_Find_Find: "Tree_Find zero s (Tree root) = Find zero s root"
  by (cases root) auto


section \<open>The dispatch of rebalance\<close>

lemma set_height_rotateRight: "rotateRight x = Some y \<Longrightarrow> set_height y = Some y"
  by (induction x rule: rotateRight.induct) (auto simp: Let_def)

lemma set_height_rotateLeft: "rotateLeft x = Some y \<Longrightarrow> set_height y = Some y"
  by (induction x rule: rotateLeft.induct) (auto simp: Let_def)

lemma rotateLeftRight_steps:
  "rotateLeftRight (Node v d l r h) = do { l' \<leftarrow> rotateLeft l; rotateRight (Node v d l' r h) }"
proof (cases "rotateLeft l")
  case None
  then show ?thesis by simp
next
  case (Some l')
  then show ?thesis
    by (cases "rotateRight (Node v d l' r h)") (simp_all add: set_height_rotateRight)
qed

lemma rotateRightLeft_steps:
  "rotateRightLeft (Node v d l r h) = do { r' \<leftarrow> rotateRight r; rotateLeft (Node v d l r' h) }"
proof (cases "rotateRight r")
  case None
  then show ?thesis by simp
next
  case (Some r')
  then show ?thesis
    by (cases "rotateLeft (Node v d l r' h)") (simp_all add: set_height_rotateLeft)
qed

lemma left_heavy_child:
  assumes l': "good l'" "l' \<noteq> Null" and gr: "good r"
    and bal: "\<bar>ht r - hl\<bar> \<le> 1" and hl0: "0 \<le> hl"
    and hl': "ht l' = hl \<or> (ht l' = hl + 1 \<and> (hl \<noteq> 0 \<longrightarrow> Bal l' \<noteq> Some 0))"
  shows "Height r - Height l' \<le> 1 \<and>
    (Height r - Height l' < -1 \<longrightarrow> Bal l' = Some (-1) \<or> Bal l' = Some 1)"
proof -
  have H: "Height l' = ht l'" "Height r = ht r"
    using l' gr by (simp_all add: good_def Height_ht)
  have "Bal l' \<noteq> Some 0" if "ht r - ht l' < -1"
    using that bal hl' hl0 ht_nonneg[of r] by auto
  with Bal_range[OF l'] show ?thesis using bal hl' H by auto
qed

lemma right_heavy_child:
  assumes r': "good r'" "r' \<noteq> Null" and gl: "good l"
    and bal: "\<bar>hr - ht l\<bar> \<le> 1" and hr0: "0 \<le> hr"
    and hr': "ht r' = hr \<or> (ht r' = hr + 1 \<and> (hr \<noteq> 0 \<longrightarrow> Bal r' \<noteq> Some 0))"
  shows "-1 \<le> Height r' - Height l \<and>
    (Height r' - Height l > 1 \<longrightarrow> Bal r' = Some 1 \<or> Bal r' = Some (-1))"
proof -
  have H: "Height r' = ht r'" "Height l = ht l"
    using r' gl by (simp_all add: good_def Height_ht)
  have "Bal r' \<noteq> Some 0" if "ht r' - ht l > 1"
    using that bal hr' hr0 ht_nonneg[of l] by auto
  with Bal_range[OF r'] show ?thesis using bal hr' H by auto
qed

text \<open>What a node handed to \<open>rebalance\<close> during an insertion looks like.\<close>

lemma rebalance_calls_form:
  assumes "good t" "n \<in> set (rebalance_calls k d t)"
  shows "\<exists>v dat l r h. n = Node v dat l r h \<and> (\<exists>n'. rebalance n = Some n') \<and>
     -2 \<le> Height r - Height l \<and> Height r - Height l \<le> 2 \<and>
     (Height r - Height l < -1 \<longrightarrow> Bal l = Some (-1) \<or> Bal l = Some 1) \<and>
     (Height r - Height l > 1 \<longrightarrow> Bal r = Some 1 \<or> Bal r = Some (-1))"
  using assms
proof (induction t)
  case Null
  then show ?case by simp
next
  case (Node v dat l r h)
  from Node.prems(1) have gl: "good l" and gr: "good r" and bal: "\<bar>ht r - ht l\<bar> \<le> 1"
    by (simp_all add: good_Node)
  show ?case
  proof (cases "v = k")
    case True
    then show ?thesis using Node.prems(2) by simp
  next
    case False
    show ?thesis
    proof (cases "k < v")
      case True
      from Insert_good[OF gl, of k d] obtain l' where l': "Insert k d l = Some l'" "good l'" "l' \<noteq> Null"
        and hl': "ht l' = ht l \<or> (ht l' = ht l + 1 \<and> (ht l \<noteq> 0 \<longrightarrow> Bal l' \<noteq> Some 0))"
        by blast
      let ?m = "Node v dat l' r (max_go (Height l') (Height r) + 1)"
      from Node.prems(2) False True l'(1)
      consider "n \<in> set (rebalance_calls k d l)" | "n = ?m"
        by auto
      then show ?thesis
      proof cases
        case 1
        then show ?thesis using Node.IH(1)[OF gl] by simp
      next
        case 2
        have H: "Height l' = ht l'" "Height r = ht r"
          using l' gr by (simp_all add: good_def Height_ht)
        from rebalance_after_left[OF l'(2,3) gr bal ht_nonneg hl', of v dat]
        have "\<exists>n'. rebalance ?m = Some n'" by blast
        moreover from left_heavy_child[OF l'(2,3) gr bal ht_nonneg hl']
        have "Height r - Height l' \<le> 1"
          "Height r - Height l' < -1 \<longrightarrow> Bal l' = Some (-1) \<or> Bal l' = Some 1"
          by blast+
        moreover have "-2 \<le> Height r - Height l'"
          using bal hl' H by auto
        ultimately show ?thesis unfolding 2 by (simp del: rebalance.simps)
      qed
    next
      case nless: False
      from Insert_good[OF gr, of k d] obtain r' where r': "Insert k d r = Some r'" "good r'" "r' \<noteq> Null"
        and hr': "ht r' = ht r \<or> (ht r' = ht r + 1 \<and> (ht r \<noteq> 0 \<longrightarrow> Bal r' \<noteq> Some 0))"
        by blast
      let ?m = "Node v dat l r' (max_go (Height l) (Height r') + 1)"
      from Node.prems(2) False nless r'(1)
      consider "n \<in> set (rebalance_calls k d r)" | "n = ?m"
        by auto
      then show ?thesis
      proof cases
        case 1
        then show ?thesis using Node.IH(2)[OF gr] by simp
      next
        case 2
        have H: "Height r' = ht r'" "Height l = ht l"
          using r' gl by (simp_all add: good_def Height_ht)
        from rebalance_after_right[OF r'(2,3) gl bal ht_nonneg hr', of v dat]
        have "\<exists>n'. rebalance ?m = Some n'" by blast
        moreover from right_heavy_child[OF r'(2,3) gl bal ht_nonneg hr']
        have "-1 \<le> Height r' - Height l"
          "Height r' - Height l > 1 \<longrightarrow> Bal r' = Some 1 \<or> Bal r' = Some (-1)"
          by blast+
        moreover have "Height r' - Height l \<le> 2"
          using bal hr' H by auto
        ultimately show ?thesis unfolding 2 by (simp del: rebalance.simps)
      qed
    qed
  qed
qed

section \<open>The parent-pointer tree: in-order sequence\<close>

lemma set_bal_entries: "set_bal c t = Some t' \<Longrightarrow> entries_b t' = entries_b t"
  by (cases t) auto

lemma rotateLeft_b_entries: "rotateLeft_b t = Some t' \<Longrightarrow> entries_b t' = entries_b t"
  by (induction t rule: rotateLeft_b.induct) auto

lemma rotateRight_b_entries: "rotateRight_b t = Some t' \<Longrightarrow> entries_b t' = entries_b t"
  by (induction t rule: rotateRight_b.induct) auto

lemma rotateLeftRight_b_entries: "rotateLeftRight_b t = Some t' \<Longrightarrow> entries_b t' = entries_b t"
proof (induction t rule: rotateLeftRight_b.induct)
  case (3 v d lv ld ll lr lb r b)
  from "3.prems" obtain lr' l1 l2 where
    s: "set_bal (-1) lr = Some lr'" "rotateLeft_b (BNode lv ld ll lr' lb) = Some l1"
      "set_bal (-1) l1 = Some l2" "rotateRight_b (BNode v d l2 r b) = Some t'"
    by (auto simp: bind_eq_Some_conv)
  from set_bal_entries[OF s(1)] rotateLeft_b_entries[OF s(2)] set_bal_entries[OF s(3)]
    rotateRight_b_entries[OF s(4)]
  show ?case by simp
qed simp_all

lemma rotateRightLeft_b_entries: "rotateRightLeft_b t = Some t' \<Longrightarrow> entries_b t' = entries_b t"
proof (induction t rule: rotateRightLeft_b.induct)
  case (3 v d l rv rd rl rr rb b)
  from "3.prems" obtain rl' r1 r2 where
    s: "set_bal 1 rl = Some rl'" "rotateRight_b (BNode rv rd rl' rr rb) = Some r1"
      "set_bal 1 r1 = Some r2" "rotateLeft_b (BNode v d l r2 b) = Some t'"
    by (auto simp: bind_eq_Some_conv)
  from set_bal_entries[OF s(1)] rotateRight_b_entries[OF s(2)] set_bal_entries[OF s(3)]
    rotateLeft_b_entries[OF s(4)]
  show ?case by simp
qed simp_all

lemma rebalance_b_entries: "rebalance_b t = Some (t', nb) \<Longrightarrow> entries_b t' = entries_b t"
  by (cases t) (auto simp: Let_def bind_eq_Some_conv
      simp del: rotateLeftRight_b.simps rotateRightLeft_b.simps rotateLeft_b.simps rotateRight_b.simps
      split: if_splits
      dest: rotateLeft_b_entries rotateRight_b_entries rotateLeftRight_b_entries rotateRightLeft_b_entries)

lemma Insert_b_entries:
  "sorted_wrt (<) (map fst (entries_b t)) \<Longrightarrow> Insert_b k d t = Some (t', g) \<Longrightarrow>
   entries_b t' = upd k d (entries_b t)"
proof (induction t arbitrary: t' g)
  case BNull
  then show ?case by simp
next
  case (BNode v dat l r b)
  from BNode.prems(1) have sl: "sorted_wrt (<) (map fst (entries_b l))"
    and sr: "sorted_wrt (<) (map fst (entries_b r))"
    and lt: "\<forall>a \<in> fst ` set (entries_b l). a < v"
    by (auto simp: sorted_wrt_append)
  show ?case
  proof (cases "k = v")
    case True
    then show ?thesis using BNode.prems(2) lt by (auto simp: upd_append_eq)
  next
    case False
    from BNode.prems(2) False obtain n1 b1 nb where
      n1: "(if k < v then
              (if l = BNull then
                 Some (BNode v dat (BNode k d BNull BNull 0) r (if r = BNull then -1 else 0))
               else Insert_b k d l \<bind> (\<lambda>(l', grown). Some (BNode v dat l' r (if grown then b - 1 else b))))
            else
              (if r = BNull then
                 Some (BNode v dat l (BNode k d BNull BNull 0) (if l = BNull then 1 else 0))
               else Insert_b k d r \<bind> (\<lambda>(r', grown). Some (BNode v dat l r' (if grown then b + 1 else b)))))
           = Some n1"
      and rb: "(if b1 < -1 \<or> b1 > 1 then rebalance_b n1 else Some (n1, b1)) = Some (t', nb)"
      by (auto simp: bind_eq_Some_conv)
    have e1: "entries_b n1 = upd k d (entries_b (BNode v dat l r b))"
    proof (cases "k < v")
      case True
      show ?thesis
      proof (cases "l = BNull")
        case True
        with n1 \<open>k < v\<close> show ?thesis by auto
      next
        case nn: False
        with n1 True obtain l' gr where l': "Insert_b k d l = Some (l', gr)"
          and n1eq: "n1 = BNode v dat l' r (if gr then b - 1 else b)"
          by (auto simp: bind_eq_Some_conv)
        from BNode.IH(1)[OF sl l'] n1eq True lt show ?thesis
          by (simp add: upd_append_less)
      qed
    next
      case nless: False
      with False have gt: "v < k" by simp
      show ?thesis
      proof (cases "r = BNull")
        case True
        with n1 nless gt lt show ?thesis by (auto simp: upd_append_greater)
      next
        case nn: False
        with n1 nless obtain r' gr where r': "Insert_b k d r = Some (r', gr)"
          and n1eq: "n1 = BNode v dat l r' (if gr then b + 1 else b)"
          by (auto simp: bind_eq_Some_conv)
        from BNode.IH(2)[OF sr r'] n1eq gt lt show ?thesis
          by (simp add: upd_append_greater)
      qed
    qed
    from rb have "entries_b t' = entries_b n1"
      by (auto split: if_splits dest: rebalance_b_entries)
    with e1 show ?thesis by simp
  qed
qed

section \<open>The parent-pointer tree: no panic\<close>

lemma rebalance_b_left:
  assumes "binv l" "l \<noteq> BNull" "binv r"
  shows "\<exists>t'. rebalance_b (BNode v d l r (-2)) = Some (t', 0) \<and> binv t' \<and> t' \<noteq> BNull"
proof -
  from assms(2) obtain lv ld ll lr lb where l: "l = BNode lv ld ll lr lb"
    by (cases l) auto
  with assms(1) have b: "binv ll" "binv lr" "lb = -1 \<or> lb = 0 \<or> lb = 1" "lb = 1 \<longrightarrow> lr \<noteq> BNull"
    by simp_all
  show ?thesis
  proof (cases "lb \<le> 0")
    case True
    then show ?thesis using l b assms(3) by (simp add: bal_test_def)
  next
    case False
    with b have one: "lb = 1" "lr \<noteq> BNull" by auto
    then obtain cv cd cl cr cb where c: "lr = BNode cv cd cl cr cb"
      by (cases lr) auto
    with b(2) have "binv cl" "binv cr" by simp_all
    then show ?thesis using l c one b assms(3) by (simp add: bal_test_def)
  qed
qed

lemma rebalance_b_right:
  assumes "binv r" "r \<noteq> BNull" "binv l"
  shows "\<exists>t'. rebalance_b (BNode v d l r 2) = Some (t', 0) \<and> binv t' \<and> t' \<noteq> BNull"
proof -
  from assms(2) obtain rv rd rl rr rb where r: "r = BNode rv rd rl rr rb"
    by (cases r) auto
  with assms(1) have b: "binv rl" "binv rr" "rb = -1 \<or> rb = 0 \<or> rb = 1" "rb = -1 \<longrightarrow> rl \<noteq> BNull"
    by simp_all
  show ?thesis
  proof (cases "rb \<ge> 0")
    case True
    then show ?thesis using r b assms(3) by (simp add: bal_test_def)
  next
    case False
    with b have one: "rb = -1" "rl \<noteq> BNull" by auto
    then obtain cv cd cl cr cb where c: "rl = BNode cv cd cl cr cb"
      by (cases rl) auto
    with b(1) have "binv cl" "binv cr" by simp_all
    then show ?thesis using r c one b assms(3) by (simp add: bal_test_def)
  qed
qed

text \<open>The second half of \<open>Insert_b\<close>, from the node \<open>n1\<close> after the first half.\<close>

lemma Insert_b_finish:
  assumes "binv l" "binv r" "b1 = -2 \<or> b1 = -1 \<or> b1 = 0 \<or> b1 = 1 \<or> b1 = 2"
    "b1 < 0 \<longrightarrow> l \<noteq> BNull" "b1 > 0 \<longrightarrow> r \<noteq> BNull"
  shows "\<exists>t' nb. (if b1 < -1 \<or> b1 > 1 then rebalance_b (BNode v d l r b1)
                   else Some (BNode v d l r b1, b1)) = Some (t', nb) \<and> binv t' \<and> t' \<noteq> BNull"
proof -
  consider "b1 = -2" | "b1 = 2" | "b1 = -1 \<or> b1 = 0 \<or> b1 = 1"
    using assms(3) by blast
  then show ?thesis
  proof cases
    case 1
    with assms rebalance_b_left[of l r v d] show ?thesis by auto
  next
    case 2
    with assms rebalance_b_right[of r l v d] show ?thesis by auto
  next
    case 3
    with assms show ?thesis by auto
  qed
qed

lemma Insert_b_binv:
  "binv t \<Longrightarrow> t \<noteq> BNull \<Longrightarrow> \<exists>t' g. Insert_b k d t = Some (t', g) \<and> binv t' \<and> t' \<noteq> BNull"
proof (induction t)
  case BNull
  then show ?case by simp
next
  case (BNode v dat l r b)
  from BNode.prems(1) have i: "binv l" "binv r" "b = -1 \<or> b = 0 \<or> b = 1"
    "b = -1 \<longrightarrow> l \<noteq> BNull" "b = 1 \<longrightarrow> r \<noteq> BNull"
    by simp_all
  show ?case
  proof (cases "k = v")
    case True
    then show ?thesis using BNode.prems(1) by auto
  next
    case False
    have "\<exists>l1 r1 b1. (if k < v then
              (if l = BNull then
                 Some (BNode v dat (BNode k d BNull BNull 0) r (if r = BNull then -1 else 0))
               else Insert_b k d l \<bind> (\<lambda>(l', grown). Some (BNode v dat l' r (if grown then b - 1 else b))))
            else
              (if r = BNull then
                 Some (BNode v dat l (BNode k d BNull BNull 0) (if l = BNull then 1 else 0))
               else Insert_b k d r \<bind> (\<lambda>(r', grown). Some (BNode v dat l r' (if grown then b + 1 else b)))))
           = Some (BNode v dat l1 r1 b1) \<and> binv l1 \<and> binv r1 \<and>
           (b1 = -2 \<or> b1 = -1 \<or> b1 = 0 \<or> b1 = 1 \<or> b1 = 2) \<and>
           (b1 < 0 \<longrightarrow> l1 \<noteq> BNull) \<and> (b1 > 0 \<longrightarrow> r1 \<noteq> BNull)"
    proof (cases "k < v")
      case True
      show ?thesis
      proof (cases "l = BNull")
        case True
        with \<open>k < v\<close> i show ?thesis by simp
      next
        case nn: False
        from BNode.IH(1)[OF i(1) nn] obtain l' gr where
          "Insert_b k d l = Some (l', gr)" "binv l'" "l' \<noteq> BNull" by blast
        with True nn i show ?thesis by auto
      qed
    next
      case nless: False
      show ?thesis
      proof (cases "r = BNull")
        case True
        with nless i show ?thesis by simp
      next
        case nn: False
        from BNode.IH(2)[OF i(2) nn] obtain r' gr where
          "Insert_b k d r = Some (r', gr)" "binv r'" "r' \<noteq> BNull" by blast
        with nless nn i show ?thesis by auto
      qed
    qed
    then obtain l1 r1 b1 where n1: "(if k < v then
              (if l = BNull then
                 Some (BNode v dat (BNode k d BNull BNull 0) r (if r = BNull then -1 else 0))
               else Insert_b k d l \<bind> (\<lambda>(l', grown). Some (BNode v dat l' r (if grown then b - 1 else b))))
            else
              (if r = BNull then
                 Some (BNode v dat l (BNode k d BNull BNull 0) (if l = BNull then 1 else 0))
               else Insert_b k d r \<bind> (\<lambda>(r', grown). Some (BNode v dat l r' (if grown then b + 1 else b)))))
           = Some (BNode v dat l1 r1 b1)"
      and p: "binv l1" "binv r1" "b1 = -2 \<or> b1 = -1 \<or> b1 = 0 \<or> b1 = 1 \<or> b1 = 2"
        "b1 < 0 \<longrightarrow> l1 \<noteq> BNull" "b1 > 0 \<longrightarrow> r1 \<noteq> BNull"
      by blast
    from Insert_b_finish[OF p, of v dat] obtain t' nb where
      f: "(if b1 < -1 \<or> b1 > 1 then rebalance_b (BNode v dat l1 r1 b1)
            else Some (BNode v dat l1 r1 b1, b1)) = Some (t', nb)" "binv t'" "t' \<noteq> BNull"
      by blast
    have "Insert_b k d (BNode v dat l r b) = Some (t', nb \<noteq> 0)"
      using False n1 f(1) by (simp del: rebalance_b.simps)
    with f(2,3) show ?thesis by blast
  qed
qed

section \<open>The parent-pointer tree: runs of inserts, lookup, traversal\<close>

lemma Tree_Insert_b_invariant:
  assumes "binv root" "sorted_wrt (<) (map fst (entries_b root))"
  shows "\<exists>root'. Tree_Insert_b k d (BTree root) = Some (BTree root') \<and> binv root' \<and>
    entries_b root' = upd k d (entries_b root)"
proof (cases "root = BNull")
  case True
  then show ?thesis by simp
next
  case False
  from Insert_b_binv[OF assms(1) False, of k d] obtain t' g where
    i: "Insert_b k d root = Some (t', g)" "binv t'" by blast
  from Insert_b_entries[OF assms(2) i(1)] i False show ?thesis by simp
qed

lemma Inserts_b_invariant:
  assumes "binv root" "sorted_wrt (<) (map fst (entries_b root))"
  shows "\<exists>root'. Inserts_b kvs (BTree root) = Some (BTree root') \<and> binv root' \<and>
    entries_b root' = fold (\<lambda>(k, d). upd k d) kvs (entries_b root)"
  using assms
proof (induction kvs arbitrary: root)
  case Nil
  then show ?case by simp
next
  case (Cons kv kvs)
  obtain k d where kv: "kv = (k, d)" by (cases kv)
  from Tree_Insert_b_invariant[OF Cons.prems, of k d] obtain r1 where
    r1: "Tree_Insert_b k d (BTree root) = Some (BTree r1)" "binv r1"
      "entries_b r1 = upd k d (entries_b root)" by blast
  have s1: "sorted_wrt (<) (map fst (entries_b r1))"
    using sorted_upd[OF Cons.prems(2), of k d] r1(3) by simp
  from Cons.IH[OF r1(2) s1] obtain root' where
    "Inserts_b kvs (BTree r1) = Some (BTree root')" "binv root'"
    "entries_b root' = fold (\<lambda>(k, d). upd k d) kvs (entries_b r1)" by blast
  then show ?case using r1(1,3) by (simp add: kv)
qed

lemma Find_b_absent: "s \<notin> fst ` set (entries_b t) \<Longrightarrow> Find_b s t = ([], False)"
  by (induction t) (auto simp: image_Un)

lemma Find_b_present:
  "sorted_wrt (<) (map fst (entries_b t)) \<Longrightarrow> (s, d) \<in> set (entries_b t) \<Longrightarrow>
   Find_b s t = (d, True)"
proof (induction t)
  case BNull
  then show ?case by simp
next
  case (BNode v dat l r b)
  from BNode.prems(1) have sl: "sorted_wrt (<) (map fst (entries_b l))"
    and sr: "sorted_wrt (<) (map fst (entries_b r))"
    and lt: "\<forall>a \<in> fst ` set (entries_b l). a < v"
    and gt: "\<forall>a \<in> fst ` set (entries_b r). v < a"
    by (auto simp: sorted_wrt_append)
  from BNode.prems(2)
  have "(s, d) \<in> set (entries_b l) \<or> (s = v \<and> d = dat) \<or> (s, d) \<in> set (entries_b r)"
    by auto
  then consider "(s, d) \<in> set (entries_b l)" | "s = v \<and> d = dat" | "(s, d) \<in> set (entries_b r)"
    by blast
  then show ?case
  proof cases
    case 1
    then have "s \<in> fst ` set (entries_b l)" by force
    with lt have "s < v" by blast
    then have "s \<noteq> v" by auto
    with \<open>s < v\<close> show ?thesis using BNode.IH(1)[OF sl 1] by simp
  next
    case 2
    then show ?thesis by simp
  next
    case 3
    then have "s \<in> fst ` set (entries_b r)" by force
    with gt have "v < s" by blast
    then have "\<not> s < v" "s \<noteq> v" by auto
    then show ?thesis using BNode.IH(2)[OF sr 3] by simp
  qed
qed

lemma Tree_Find_b_Find: "Tree_Find_b s (BTree root) = Some (Find_b s root)"
  by (cases root) auto

lemma Traverse_b_keys: "Traverse_b t n visit_key_b log = log @ map fst (entries_b n)"
  by (induction n arbitrary: log) auto

lemma Traverse_keys: "Traverse t n visit_key log = log @ map fst (entries n)"
  by (simp add: Traverse_fold fold_visit_key)

lemma sorted_fold_upd:
  "sorted_wrt (<) (map fst xs) \<Longrightarrow> sorted_wrt (<) (map fst (fold (\<lambda>(k, d). upd k d) kvs xs))"
  by (induction kvs arbitrary: xs) (auto simp: sorted_upd)

section \<open>The dispatch of rebalance in the parent-pointer tree\<close>

lemma rotateLeftRight_b_steps:
  "rotateLeftRight_b (BNode v d l r b) =
     do { l' \<leftarrow> rotateLeft_b l; rotateRight_b (BNode v d l' r b) }"
proof (cases l)
  case BNull
  then show ?thesis by simp
next
  case (BNode lv ld ll lr lb)
  then show ?thesis by (cases lr) simp_all
qed

lemma rotateRightLeft_b_steps:
  "rotateRightLeft_b (BNode v d l r b) =
     do { r' \<leftarrow> rotateRight_b r; rotateLeft_b (BNode v d l r' b) }"
proof (cases r)
  case BNull
  then show ?thesis by simp
next
  case (BNode rv rd rl rr rb)
  then show ?thesis by (cases rl) simp_all
qed

lemma rebalance_b_left_le:
  "bal_of l = Some bl \<Longrightarrow> bl \<le> 0 \<Longrightarrow>
   rebalance_b (BNode v d l r (-2)) = map_option (\<lambda>s. (s, 0)) (rotateRight_b (BNode v d l r (-2)))"
  by (simp add: bal_test_def)

lemma rebalance_b_left_one:
  "bal_of l = Some 1 \<Longrightarrow>
   rebalance_b (BNode v d l r (-2)) = map_option (\<lambda>s. (s, 0)) (rotateLeftRight_b (BNode v d l r (-2)))"
  by (simp add: bal_test_def del: rotateLeftRight_b.simps)

lemma rebalance_b_right_ge:
  "bal_of r = Some br \<Longrightarrow> br \<ge> 0 \<Longrightarrow>
   rebalance_b (BNode v d l r 2) = map_option (\<lambda>s. (s, 0)) (rotateLeft_b (BNode v d l r 2))"
  by (simp add: bal_test_def)

lemma rebalance_b_right_minus:
  "bal_of r = Some (-1) \<Longrightarrow>
   rebalance_b (BNode v d l r 2) = map_option (\<lambda>s. (s, 0)) (rotateRightLeft_b (BNode v d l r 2))"
  by (simp add: bal_test_def del: rotateRightLeft_b.simps)

lemma rebalance_b_in_range:
  "-1 \<le> b \<Longrightarrow> b \<le> 1 \<Longrightarrow> rebalance_b (BNode v d l r b) = Some (BNode v d l r b, b)"
  by simp

lemma bal_of_binv:
  "binv m \<Longrightarrow> m \<noteq> BNull \<Longrightarrow> \<exists>c. bal_of m = Some c \<and> (c = -1 \<or> c = 0 \<or> c = 1)"
  by (cases m) auto

lemma pending_form:
  assumes "m \<in> set (pending (BNode v d l r b1))" "binv l" "binv r"
    "b1 = -2 \<or> b1 = -1 \<or> b1 = 0 \<or> b1 = 1 \<or> b1 = 2"
    "b1 < 0 \<longrightarrow> l \<noteq> BNull" "b1 > 0 \<longrightarrow> r \<noteq> BNull"
  shows "\<exists>v d l r b. m = BNode v d l r b \<and> (b = -2 \<or> b = 2) \<and> binv l \<and> binv r \<and>
     (b = -2 \<longrightarrow> l \<noteq> BNull) \<and> (b = 2 \<longrightarrow> r \<noteq> BNull)"
  using assms by (auto split: if_splits)

lemma rebalance_calls_b_form:
  assumes "binv t" "m \<in> set (rebalance_calls_b k d t)"
  shows "\<exists>v d l r b. m = BNode v d l r b \<and> (b = -2 \<or> b = 2) \<and> binv l \<and> binv r \<and>
     (b = -2 \<longrightarrow> l \<noteq> BNull) \<and> (b = 2 \<longrightarrow> r \<noteq> BNull)"
  using assms
proof (induction t)
  case BNull
  then show ?case by simp
next
  case (BNode v dat l r b)
  from BNode.prems(1) have i: "binv l" "binv r" "b = -1 \<or> b = 0 \<or> b = 1"
    "b = -1 \<longrightarrow> l \<noteq> BNull" "b = 1 \<longrightarrow> r \<noteq> BNull"
    by simp_all
  show ?case
  proof (cases "k = v")
    case True
    then show ?thesis using BNode.prems(2) by simp
  next
    case False
    show ?thesis
    proof (cases "k < v")
      case True
      show ?thesis
      proof (cases "l = BNull")
        case True
        with \<open>k < v\<close> False BNode.prems(2)
        have "m \<in> set (pending (BNode v dat (BNode k d BNull BNull 0) r (if r = BNull then -1 else 0)))"
          by simp
        then show ?thesis by (auto split: if_splits)
      next
        case nn: False
        from Insert_b_binv[OF i(1) nn, of k d] obtain l' gr where
          l': "Insert_b k d l = Some (l', gr)" "binv l'" "l' \<noteq> BNull" by blast
        from BNode.prems(2) False True nn l'(1)
        consider "m \<in> set (rebalance_calls_b k d l)"
          | "m \<in> set (pending (BNode v dat l' r (if gr then b - 1 else b)))"
          by auto
        then show ?thesis
        proof cases
          case 1
          then show ?thesis using BNode.IH(1)[OF i(1)] by simp
        next
          case 2
          then show ?thesis
            using i l'(2,3) by (intro pending_form[OF 2]) auto
        qed
      qed
    next
      case nless: False
      show ?thesis
      proof (cases "r = BNull")
        case True
        with nless False BNode.prems(2)
        have "m \<in> set (pending (BNode v dat l (BNode k d BNull BNull 0) (if l = BNull then 1 else 0)))"
          by simp
        then show ?thesis by (auto split: if_splits)
      next
        case nn: False
        from Insert_b_binv[OF i(2) nn, of k d] obtain r' gr where
          r': "Insert_b k d r = Some (r', gr)" "binv r'" "r' \<noteq> BNull" by blast
        from BNode.prems(2) False nless nn r'(1)
        consider "m \<in> set (rebalance_calls_b k d r)"
          | "m \<in> set (pending (BNode v dat l r' (if gr then b + 1 else b)))"
          by auto
        then show ?thesis
        proof cases
          case 1
          then show ?thesis using BNode.IH(2)[OF i(2)] by simp
        next
          case 2
          then show ?thesis
            using i r'(2,3) by (intro pending_form[OF 2]) auto
        qed
      qed
    qed
  qed
qed

lemma dispatch_generic:
  assumes "good t" "n \<in> set (rebalance_calls k d t)"
  shows "\<exists>v dat l r h b. n = Node v dat l r h \<and> Bal n = Some b \<and>
      (\<exists>n'. rebalance n = Some n') \<and>
      (b < -1 \<longrightarrow> (\<exists>bl. Bal l = Some bl \<and> (bl = -1 \<or> bl = 1) \<and>
          (bl \<le> 0 \<longrightarrow> rebalance n = rotateRight n) \<and>
          (bl = 1 \<longrightarrow> rebalance n =
             do { l' \<leftarrow> rotateLeft l; rotateRight (Node v dat l' r h) }))) \<and>
      (b > 1 \<longrightarrow> (\<exists>br. Bal r = Some br \<and> (br = 1 \<or> br = -1) \<and>
          (br \<ge> 0 \<longrightarrow> rebalance n = rotateLeft n) \<and>
          (br = -1 \<longrightarrow> rebalance n =
             do { r' \<leftarrow> rotateRight r; rotateLeft (Node v dat l r' h) }))) \<and>
      (-1 \<le> b \<and> b \<le> 1 \<longrightarrow> rebalance n = Some n)"
proof -
  from rebalance_calls_form[OF assms] obtain v dat l r h where
    n: "n = Node v dat l r h" and ex: "\<exists>n'. rebalance n = Some n'"
    and lo: "Height r - Height l < -1 \<longrightarrow> Bal l = Some (-1) \<or> Bal l = Some 1"
    and hi: "Height r - Height l > 1 \<longrightarrow> Bal r = Some 1 \<or> Bal r = Some (-1)"
    by blast
  let ?b = "Height r - Height l"
  have left: "\<exists>bl. Bal l = Some bl \<and> (bl = -1 \<or> bl = 1) \<and>
          (bl \<le> 0 \<longrightarrow> rebalance n = rotateRight n) \<and>
          (bl = 1 \<longrightarrow> rebalance n =
             do { l' \<leftarrow> rotateLeft l; rotateRight (Node v dat l' r h) })" if b: "?b < -1"
  proof -
    from lo b consider "Bal l = Some (-1)" | "Bal l = Some 1" by blast
    then show ?thesis
    proof cases
      case 1
      with rebalance_left_left[OF b 1, of v dat h] show ?thesis unfolding n by simp
    next
      case 2
      with rebalance_left_right[OF b 2, of v dat h] show ?thesis
        unfolding n by (simp add: rotateLeftRight_steps del: rotateLeftRight.simps rebalance.simps)
    qed
  qed
  have right: "\<exists>br. Bal r = Some br \<and> (br = 1 \<or> br = -1) \<and>
          (br \<ge> 0 \<longrightarrow> rebalance n = rotateLeft n) \<and>
          (br = -1 \<longrightarrow> rebalance n =
             do { r' \<leftarrow> rotateRight r; rotateLeft (Node v dat l r' h) })" if b: "?b > 1"
  proof -
    from hi b consider "Bal r = Some 1" | "Bal r = Some (-1)" by blast
    then show ?thesis
    proof cases
      case 1
      with rebalance_right_right[OF b 1, of v dat h] show ?thesis unfolding n by simp
    next
      case 2
      with rebalance_right_left[OF b 2, of v dat h] show ?thesis
        unfolding n by (simp add: rotateRightLeft_steps del: rotateRightLeft.simps rebalance.simps)
    qed
  qed
  have mid: "rebalance n = Some n" if "-1 \<le> ?b \<and> ?b \<le> 1"
    using that rebalance_noop[of r l v dat h] unfolding n by blast
  have "Bal n = Some ?b" unfolding n by simp
  with n ex left right mid show ?thesis by blast
qed

lemma dispatch_b:
  assumes "binv t" "m \<in> set (rebalance_calls_b k d t)"
  shows "\<exists>v dat l r b. m = BNode v dat l r b \<and> (b < -1 \<or> b > 1) \<and>
      (\<exists>s. rebalance_b m = Some (s, 0)) \<and>
      (b < -1 \<longrightarrow> (\<exists>bl. bal_of l = Some bl \<and> (bl \<le> 0 \<or> bl = 1) \<and>
          (bl \<le> 0 \<longrightarrow> rebalance_b m = map_option (\<lambda>s. (s, 0)) (rotateRight_b m)) \<and>
          (bl = 1 \<longrightarrow> rebalance_b m = map_option (\<lambda>s. (s, 0))
             (do { l' \<leftarrow> rotateLeft_b l; rotateRight_b (BNode v dat l' r b) })))) \<and>
      (b > 1 \<longrightarrow> (\<exists>br. bal_of r = Some br \<and> (br \<ge> 0 \<or> br = -1) \<and>
          (br \<ge> 0 \<longrightarrow> rebalance_b m = map_option (\<lambda>s. (s, 0)) (rotateLeft_b m)) \<and>
          (br = -1 \<longrightarrow> rebalance_b m = map_option (\<lambda>s. (s, 0))
             (do { r' \<leftarrow> rotateRight_b r; rotateLeft_b (BNode v dat l r' b) }))))"
proof -
  from rebalance_calls_b_form[OF assms] obtain v dat l r b where
    m: "m = BNode v dat l r b" and b: "b = -2 \<or> b = 2" and i: "binv l" "binv r"
    and nl: "b = -2 \<longrightarrow> l \<noteq> BNull" and nr: "b = 2 \<longrightarrow> r \<noteq> BNull"
    by blast
  from b show ?thesis
  proof
    assume b2: "b = -2"
    with nl have "l \<noteq> BNull" by simp
    from bal_of_binv[OF i(1) this] obtain bl where
      bl: "bal_of l = Some bl" "bl = -1 \<or> bl = 0 \<or> bl = 1" by blast
    have 1: "bl \<le> 0 \<longrightarrow> rebalance_b m = map_option (\<lambda>s. (s, 0)) (rotateRight_b m)"
      using rebalance_b_left_le[OF bl(1), of v dat r] unfolding m b2 by blast
    have 2: "bl = 1 \<longrightarrow> rebalance_b m = map_option (\<lambda>s. (s, 0))
             (do { l' \<leftarrow> rotateLeft_b l; rotateRight_b (BNode v dat l' r b) })"
      using rebalance_b_left_one[of l v dat r] bl(1) rotateLeftRight_b_steps[of v dat l r "-2"]
      unfolding m b2 by (simp del: rebalance_b.simps rotateLeftRight_b.simps)
    from rebalance_b_left[OF i(1) \<open>l \<noteq> BNull\<close> i(2), of v dat]
    have 3: "\<exists>s. rebalance_b m = Some (s, 0)" unfolding m b2 by blast
    from bl 1 2 3 m b2 show ?thesis by auto
  next
    assume b2: "b = 2"
    with nr have "r \<noteq> BNull" by simp
    from bal_of_binv[OF i(2) this] obtain br where
      br: "bal_of r = Some br" "br = -1 \<or> br = 0 \<or> br = 1" by blast
    have 1: "br \<ge> 0 \<longrightarrow> rebalance_b m = map_option (\<lambda>s. (s, 0)) (rotateLeft_b m)"
      using rebalance_b_right_ge[OF br(1), of v dat l] unfolding m b2 by blast
    have 2: "br = -1 \<longrightarrow> rebalance_b m = map_option (\<lambda>s. (s, 0))
             (do { r' \<leftarrow> rotateRight_b r; rotateLeft_b (BNode v dat l r' b) })"
      using rebalance_b_right_minus[of r v dat l] br(1) rotateRightLeft_b_steps[of v dat l r 2]
      unfolding m b2 by (simp del: rebalance_b.simps rotateRightLeft_b.simps)
    from rebalance_b_right[OF i(2) \<open>r \<noteq> BNull\<close> i(1), of v dat]
    have 3: "\<exists>s. rebalance_b m = Some (s, 0)" unfolding m b2 by blast
    from br 1 2 3 m b2 show ?thesis by auto
  qed
qed


section \<open>The specified properties\<close>

text \<open>
  C1: starting from the empty tree, any finite sequence of \<^verbatim>\<open>Tree.Insert\<close> calls completes
  without a panic, and in the resulting tree every node satisfies the AVL invariant: the
  true heights of its two subtrees differ by at most 1, and its balance factor as the code
  computes it (\<^verbatim>\<open>Bal\<close>, from the cached heights) is -1, 0 or 1.
\<close>

theorem insert_keeps_avl:
  "\<exists>root. Inserts kvs (Tree Null) = Some (Tree root) \<and>
     (\<forall>n \<in> set (nodes root). node_avl n \<and> Bal n \<in> {Some (-1), Some 0, Some 1})"
proof -
  from Inserts_invariant[of Null kvs] obtain root where
    r: "Inserts kvs (Tree Null) = Some (Tree root)" "good root"
    by (auto simp: good_def)
  have "node_avl n \<and> Bal n \<in> {Some (-1), Some 0, Some 1}" if "n \<in> set (nodes root)" for n
    using nodes_good[OF r(2) that] nodes_avl[OF _ that] r(2) Bal_range[of n]
    by (simp add: good_def)
  with r(1) show ?thesis by blast
qed

theorem insert_keeps_avl_witness:
  "Inserts [(3::int, ''c''), (1, ''a''), (2, ''b'')] (Tree Null) =
     Some (Tree (Node 2 ''b'' (Node 1 ''a'' Null Null 1) (Node 3 ''c'' Null Null 1) 2)) \<and>
   node_avl (Node (2::int) ''b'' (Node 1 ''a'' Null Null 1) (Node 3 ''c'' Null Null 1) 2) \<and>
   Bal (Node (2::int) ''b'' (Node 1 ''a'' Null Null 1) (Node 3 ''c'' Null Null 1) 2) = Some 0"
proof -
  let ?kvs = "[(3::int, ''c''), (1, ''a''), (2, ''b'')]"
  let ?r = "Node (2::int) ''b'' (Node 1 ''a'' Null Null 1) (Node 3 ''c'' Null Null 1) 2"
  have e: "Inserts ?kvs (Tree Null) = Some (Tree ?r)"
    by code_simp
  from insert_keeps_avl[of ?kvs] e
  have "\<forall>n \<in> set (nodes ?r). node_avl n \<and> Bal n \<in> {Some (-1), Some 0, Some 1}"
    by simp
  then have "node_avl ?r" by simp
  with e show ?thesis by simp
qed

text \<open>
  C2: starting from the empty tree, after any finite sequence of \<^verbatim>\<open>Tree.Insert\<close> calls every
  node satisfies the search-tree invariant: the keys of its left subtree are strictly less
  than its key, the keys of its right subtree strictly greater.
\<close>

theorem insert_keeps_bst:
  "\<exists>root. Inserts kvs (Tree Null) = Some (Tree root) \<and>
     (\<forall>n \<in> set (nodes root). node_bst n)"
proof -
  from Inserts_invariant[of Null kvs] obtain root where
    r: "Inserts kvs (Tree Null) = Some (Tree root)" "bst root"
    by (auto simp: good_def)
  then show ?thesis using nodes_bst by blast
qed

theorem insert_keeps_bst_witness:
  "Inserts [(3::int, ''c''), (1, ''a''), (2, ''b'')] (Tree Null) =
     Some (Tree (Node 2 ''b'' (Node 1 ''a'' Null Null 1) (Node 3 ''c'' Null Null 1) 2)) \<and>
   node_bst (Node (2::int) ''b'' (Node 1 ''a'' Null Null 1) (Node 3 ''c'' Null Null 1) 2) \<and>
   keys_of (Node (1::int) ''a'' Null Null 1) = {1} \<and>
   keys_of (Node (3::int) ''c'' Null Null 1) = {3}"
proof -
  let ?kvs = "[(3::int, ''c''), (1, ''a''), (2, ''b'')]"
  let ?r = "Node (2::int) ''b'' (Node 1 ''a'' Null Null 1) (Node 3 ''c'' Null Null 1) 2"
  have e: "Inserts ?kvs (Tree Null) = Some (Tree ?r)"
    by code_simp
  from insert_keeps_bst[of ?kvs] e
  have "\<forall>n \<in> set (nodes ?r). node_bst n"
    by simp
  then have "node_bst ?r" by simp
  with e show ?thesis by simp
qed

text \<open>
  C3: for every sequence of insertions into the empty tree, whatever its order, the in-order
  \<^verbatim>\<open>Traverse\<close> from the root visits the keys in strictly ascending order: the visited keys
  are the sorted sequence of the set of inserted keys. The result depends on the key set
  only, so every permutation of a key set yields the same sequence.
\<close>

theorem traverse_sorted:
  "\<exists>root. Inserts kvs (Tree Null) = Some (Tree root) \<and>
     Traverse (Tree root) root visit_key [] = sorted_list_of_set (fst ` set kvs) \<and>
     sorted_wrt (<) (Traverse (Tree root) root visit_key [])"
proof -
  from Inserts_invariant[of Null kvs] obtain root where
    r: "Inserts kvs (Tree Null) = Some (Tree root)" "bst root"
    and e: "entries root = fold (\<lambda>(k, d). upd k d) kvs []"
    by (auto simp: good_def)
  have t: "Traverse (Tree root) root visit_key [] = map fst (entries root)"
    by (simp add: Traverse_fold fold_visit_key)
  have s: "sorted_wrt (<) (map fst (entries root))"
    using r(2) by (simp add: bst_sorted)
  have "set (map fst (entries root)) = fst ` set kvs"
    using fold_upd_keys[of kvs "[]"] e by simp
  with strict_sorted_unique[OF s] have "map fst (entries root) = sorted_list_of_set (fst ` set kvs)"
    by simp
  with r(1) t s show ?thesis by simp
qed

theorem traverse_sorted_witness:
  "Inserts [(3::int, ''c''), (1, ''a''), (2, ''b'')] (Tree Null) =
     Some (Tree (Node 2 ''b'' (Node 1 ''a'' Null Null 1) (Node 3 ''c'' Null Null 1) 2)) \<and>
   Traverse (Tree (Node 2 ''b'' (Node 1 ''a'' Null Null 1) (Node 3 ''c'' Null Null 1) 2))
     (Node (2::int) ''b'' (Node 1 ''a'' Null Null 1) (Node 3 ''c'' Null Null 1) 2) visit_key []
     = [1, 2, 3] \<and>
   sorted_list_of_set (fst ` set [(3::int, ''c''), (1, ''a''), (2, ''b'')]) = [1, 2, 3]"
proof -
  let ?kvs = "[(3::int, ''c''), (1, ''a''), (2, ''b'')]"
  let ?r = "Node (2::int) ''b'' (Node 1 ''a'' Null Null 1) (Node 3 ''c'' Null Null 1) 2"
  have e: "Inserts ?kvs (Tree Null) = Some (Tree ?r)"
    by code_simp
  have t: "Traverse (Tree ?r) ?r visit_key [] = [1, 2, 3]"
    by simp
  from traverse_sorted[of ?kvs] e
  have "Traverse (Tree ?r) ?r visit_key [] = sorted_list_of_set (fst ` set ?kvs)"
    by simp
  with e t show ?thesis by simp
qed

text \<open>
  C9: inserting the integer keys 1, 2, 3, 4, 5, 6 in ascending order into the empty tree,
  with any data, gives a tree of height exactly 3, both as cached in the root and as the
  true height of the shape.
\<close>

theorem ascending_six_height:
  "\<exists>root. Inserts [(1::int, d1), (2, d2), (3, d3), (4, d4), (5, d5), (6, d6)] (Tree Null)
       = Some (Tree root) \<and> Height root = 3 \<and> ht root = 3"
  by (simp add: Let_def max_go_def Bal_is_def root_imbalanced_def)

theorem ascending_six_height_witness:
  "Inserts [(1::int, ''a''), (2, ''b''), (3, ''c''), (4, ''d''), (5, ''e''), (6, ''f'')] (Tree Null)
     = Some (Tree (Node 4 ''d''
         (Node 2 ''b'' (Node 1 ''a'' Null Null 1) (Node 3 ''c'' Null Null 1) 2)
         (Node 5 ''e'' Null (Node 6 ''f'' Null Null 1) 2) 3)) \<and>
   Height (Node (4::int) ''d''
         (Node 2 ''b'' (Node 1 ''a'' Null Null 1) (Node 3 ''c'' Null Null 1) 2)
         (Node 5 ''e'' Null (Node 6 ''f'' Null Null 1) 2) 3) = 3 \<and>
   ht (Node (4::int) ''d''
         (Node 2 ''b'' (Node 1 ''a'' Null Null 1) (Node 3 ''c'' Null Null 1) 2)
         (Node 5 ''e'' Null (Node 6 ''f'' Null Null 1) 2) 3) = 3"
proof -
  let ?r = "Node (4::int) ''d''
         (Node 2 ''b'' (Node 1 ''a'' Null Null 1) (Node 3 ''c'' Null Null 1) 2)
         (Node 5 ''e'' Null (Node 6 ''f'' Null Null 1) 2) 3"
  have e: "Inserts [(1::int, ''a''), (2, ''b''), (3, ''c''), (4, ''d''), (5, ''e''), (6, ''f'')]
      (Tree Null) = Some (Tree ?r)"
    by code_simp
  from ascending_six_height[of "''a''" "''b''" "''c''" "''d''" "''e''" "''f''"] e
  have "Height ?r = 3 \<and> ht ?r = 3"
    by (simp del: Inserts.simps Height.simps ht.simps)
  with e show ?thesis by (simp del: Inserts.simps Height.simps ht.simps)
qed

text \<open>
  C5: in a tree that satisfies the invariants of the data model (search-tree order, AVL
  balance, cached heights that are the true heights), inserting a key that is already
  present with any data returns the same tree with only the data under that key replaced
  (\<open>overwrite\<close>): the shape (keys, child links, cached heights) is unchanged, so are the
  balance factors of all nodes, every \<^verbatim>\<open>rebalance\<close> call on the way up returns its argument
  as it is (no rotation), the extra check of \<^verbatim>\<open>Tree.Insert\<close> changes nothing, a following
  \<^verbatim>\<open>Find\<close> of the key returns the new data with \<open>True\<close>, and the result of \<^verbatim>\<open>Find\<close> for every
  other key is as before.
\<close>

theorem insert_existing_overwrites:
  assumes "avl t" "cached_ok t" "bst t" "k \<in> keys_of t"
  shows "Insert k d t = Some (overwrite k d t) \<and>
     Tree_Insert k d (Tree t) = Some (Tree (overwrite k d t)) \<and>
     shape (overwrite k d t) = shape t \<and>
     map Height (nodes (overwrite k d t)) = map Height (nodes t) \<and>
     map Bal (nodes (overwrite k d t)) = map Bal (nodes t) \<and>
     (\<forall>n \<in> set (rebalance_calls k d t). rebalance n = Some n) \<and>
     Find zero k (overwrite k d t) = (d, True) \<and>
     Tree_Find zero k (Tree (overwrite k d t)) = (d, True) \<and>
     (\<forall>s. s \<noteq> k \<longrightarrow> Find zero s (overwrite k d t) = Find zero s t)"
proof -
  have g: "good t"
    using assms(1,2) by (simp add: good_def)
  have i: "Insert k d t = Some (overwrite k d t)"
    using g assms(3,4) by (rule Insert_overwrite)
  from Tree_Insert_good[OF g, of k d] i
  have ti: "Tree_Insert k d (Tree t) = Some (Tree (overwrite k d t))"
    by auto
  have f: "Find zero k (overwrite k d t) = (d, True)"
    using assms(3,4) by (rule Find_overwrite_same)
  show ?thesis
    using i ti f shape_overwrite[of k d t] shape_eq_Bal[OF shape_overwrite, of k d t]
      overwrite_calls[OF g assms(3,4)] Find_overwrite_other[of _ k zero d t]
    by (simp add: Tree_Find_Find)
qed

theorem insert_existing_overwrites_witness:
  "avl (Node (2::int) ''b'' (Node 1 ''a'' Null Null 1) (Node 3 ''c'' Null Null 1) 2) \<and>
   cached_ok (Node (2::int) ''b'' (Node 1 ''a'' Null Null 1) (Node 3 ''c'' Null Null 1) 2) \<and>
   bst (Node (2::int) ''b'' (Node 1 ''a'' Null Null 1) (Node 3 ''c'' Null Null 1) 2) \<and>
   Insert 1 ''z'' (Node (2::int) ''b'' (Node 1 ''a'' Null Null 1) (Node 3 ''c'' Null Null 1) 2)
     = Some (Node 2 ''b'' (Node 1 ''z'' Null Null 1) (Node 3 ''c'' Null Null 1) 2) \<and>
   Find [] 1 (Node (2::int) ''b'' (Node 1 ''z'' Null Null 1) (Node 3 ''c'' Null Null 1) 2)
     = (''z'', True)"
proof -
  let ?t = "Node (2::int) ''b'' (Node 1 ''a'' Null Null 1) (Node 3 ''c'' Null Null 1) 2"
  have a: "avl ?t" by simp
  have c: "cached_ok ?t" by simp
  have b: "bst ?t" by simp
  have k: "1 \<in> keys_of ?t" by simp
  have o: "overwrite 1 ''z'' ?t = Node 2 ''b'' (Node 1 ''z'' Null Null 1) (Node 3 ''c'' Null Null 1) 2"
    by simp
  from insert_existing_overwrites[OF a c b k, of "''z''" "[]"]
  have "Insert 1 ''z'' ?t = Some (overwrite 1 ''z'' ?t)"
    and "Find [] 1 (overwrite 1 ''z'' ?t) = (''z'', True)"
    by blast+
  with a c b show ?thesis unfolding o by blast
qed

text \<open>
  C6: \<^verbatim>\<open>Find\<close> has no panicking path (it is a total function of the model, with no failure
  value). On a nil handle, an empty tree or a tree that does not hold the key, it returns
  the zero value of the data type paired with \<open>False\<close>; in a search tree that holds the key,
  it returns the data stored with the key paired with \<open>True\<close>.
\<close>

theorem find_total:
  "Find zero s Null = (zero, False) \<and>
   Tree_Find zero s NilTree = (zero, False) \<and>
   Tree_Find zero s (Tree Null) = (zero, False) \<and>
   (s \<notin> keys_of root \<longrightarrow> Tree_Find zero s (Tree root) = (zero, False)) \<and>
   (bst root \<and> (s, d) \<in> set (entries root) \<longrightarrow> Tree_Find zero s (Tree root) = (d, True))"
  using Find_absent[of s root zero] Find_present[of root s d zero]
  by (simp add: Tree_Find_Find)

theorem find_total_witness:
  "bst (Node (2::int) ''b'' (Node 1 ''a'' Null Null 1) (Node 3 ''c'' Null Null 1) 2) \<and>
   Tree_Find [] 3 (Tree (Node (2::int) ''b'' (Node 1 ''a'' Null Null 1) (Node 3 ''c'' Null Null 1) 2))
     = (''c'', True) \<and>
   Tree_Find [] 4 (Tree (Node (2::int) ''b'' (Node 1 ''a'' Null Null 1) (Node 3 ''c'' Null Null 1) 2))
     = ([], False)"
proof -
  let ?t = "Node (2::int) ''b'' (Node 1 ''a'' Null Null 1) (Node 3 ''c'' Null Null 1) 2"
  have b: "bst ?t" by simp
  have e: "(3, ''c'') \<in> set (entries ?t)" by simp
  have a: "4 \<notin> keys_of ?t" by simp
  from find_total[of "[]" 3 ?t "''c''"] b e
  have 1: "Tree_Find [] 3 (Tree ?t) = (''c'', True)" by blast
  from find_total[of "[]" 4 ?t "''c''"] a
  have 2: "Tree_Find [] 4 (Tree ?t) = ([], False)" by blast
  from b 1 2 show ?thesis by blast
qed

text \<open>
  C7: when the tree satisfies the AVL invariant (with cached heights that are the true
  heights) before \<^verbatim>\<open>Tree.Insert\<close> is called, the node-level insert returns a root whose
  balance factor is -1, 0 or 1, so the test \<^verbatim>\<open>t.Root.Bal() < -1 || t.Root.Bal() > 1\<close> is false,
  the extra \<^verbatim>\<open>t.rebalance()\<close> is not called, and \<^verbatim>\<open>Tree.Insert\<close> stores exactly the root that
  the node-level insert returned.
\<close>

theorem root_check_never_fires:
  assumes "avl root" "cached_ok root"
  shows "\<exists>root'. Insert k d root = Some root' \<and>
     Bal root' \<in> {Some (-1), Some 0, Some 1} \<and>
     root_imbalanced root' = Some False \<and>
     Tree_Insert k d (Tree root) = Some (Tree root')"
proof -
  have "good root"
    using assms by (simp add: good_def)
  from Tree_Insert_good[OF this, of k d] obtain root' where
    r: "Insert k d root = Some root'" "good root'" "root' \<noteq> Null"
      "root_imbalanced root' = Some False" "Tree_Insert k d (Tree root) = Some (Tree root')"
    by blast
  with Bal_range[OF r(2,3)] show ?thesis by blast
qed

theorem root_check_never_fires_witness:
  "avl (Node (1::int) ''a'' Null (Node 2 ''b'' Null Null 1) 2) \<and>
   cached_ok (Node (1::int) ''a'' Null (Node 2 ''b'' Null Null 1) 2) \<and>
   Insert 3 ''c'' (Node (1::int) ''a'' Null (Node 2 ''b'' Null Null 1) 2)
     = Some (Node 2 ''b'' (Node 1 ''a'' Null Null 1) (Node 3 ''c'' Null Null 1) 2) \<and>
   root_imbalanced (Node (2::int) ''b'' (Node 1 ''a'' Null Null 1) (Node 3 ''c'' Null Null 1) 2)
     = Some False \<and>
   Tree_Insert 3 ''c'' (Tree (Node (1::int) ''a'' Null (Node 2 ''b'' Null Null 1) 2))
     = Some (Tree (Node 2 ''b'' (Node 1 ''a'' Null Null 1) (Node 3 ''c'' Null Null 1) 2))"
proof -
  let ?t = "Node (1::int) ''a'' Null (Node 2 ''b'' Null Null 1) 2"
  let ?r = "Node (2::int) ''b'' (Node 1 ''a'' Null Null 1) (Node 3 ''c'' Null Null 1) 2"
  have a: "avl ?t" by simp
  have c: "cached_ok ?t" by simp
  have i: "Insert 3 ''c'' ?t = Some ?r" by code_simp
  from root_check_never_fires[OF a c, of 3 "''c''"] i
  have "root_imbalanced ?r = Some False \<and> Tree_Insert 3 ''c'' (Tree ?t) = Some (Tree ?r)"
    by (simp del: Insert.simps Tree_Insert.simps)
  with a c i show ?thesis by blast
qed



section \<open>The two variants side by side\<close>

text \<open>
  C8: for every finite sequence of insertions of string keys with string data into an
  initially empty tree, both variants complete without a panic, \<^verbatim>\<open>Find\<close> returns the same
  (value, found) pair in both for every key (the generic tree instantiated with the zero
  value of strings, the empty string), and the in-order traversals from the roots visit
  the same key sequence.
\<close>

theorem variants_equivalent:
  "\<exists>rb rg. Inserts_b kvs (BTree BNull) = Some (BTree rb) \<and>
     Inserts kvs (Tree Null) = Some (Tree rg) \<and>
     (\<forall>s. Tree_Find_b s (BTree rb) = Some (Tree_Find [] s (Tree rg))) \<and>
     Traverse_b (BTree rb) rb visit_key_b [] = Traverse (Tree rg) rg visit_key []"
proof -
  let ?E = "fold (\<lambda>(k, d). upd k d) kvs []"
  from Inserts_b_invariant[of BNull kvs] obtain rb where
    rb: "Inserts_b kvs (BTree BNull) = Some (BTree rb)" "entries_b rb = ?E"
    by auto
  from Inserts_invariant[of Null kvs] obtain rg where
    rg: "Inserts kvs (Tree Null) = Some (Tree rg)" "bst rg" "entries rg = ?E"
    by (auto simp: good_def)
  have sE: "sorted_wrt (<) (map fst ?E)"
    using sorted_fold_upd[of "[]" kvs] by simp
  have "Find_b s rb = Find [] s rg" for s
  proof (cases "s \<in> fst ` set ?E")
    case True
    then obtain d where d: "(s, d) \<in> set ?E" by force
    have "Find_b s rb = (d, True)"
      using Find_b_present[of rb s d] sE d rb(2) by simp
    moreover have "Find [] s rg = (d, True)"
      using Find_present[OF rg(2), of s d "[]"] d rg(3) by simp
    ultimately show ?thesis by simp
  next
    case False
    have "Find_b s rb = ([], False)"
      using Find_b_absent[of s rb] False rb(2) by simp
    moreover have "Find [] s rg = ([], False)"
      using Find_absent[of s rg "[]"] False rg(3) set_entries[of rg] by simp
    ultimately show ?thesis by simp
  qed
  then have "\<forall>s. Tree_Find_b s (BTree rb) = Some (Tree_Find [] s (Tree rg))"
    by (simp add: Tree_Find_b_Find Tree_Find_Find del: Tree_Find_b.simps Tree_Find.simps)
  moreover have "Traverse_b (BTree rb) rb visit_key_b [] = Traverse (Tree rg) rg visit_key []"
    by (simp add: Traverse_b_keys Traverse_keys rb(2) rg(3))
  ultimately show ?thesis using rb(1) rg(1) by blast
qed

theorem variants_equivalent_witness:
  "Inserts_b [(''d'', ''1''), (''b'', ''2''), (''g'', ''3''), (''a'', ''4''), (''a'', ''5''), (''h'', ''6'')]
     (BTree BNull) =
     Some (BTree (BNode ''b'' ''2'' (BNode ''a'' ''5'' BNull BNull 0)
       (BNode ''d'' ''1'' BNull (BNode ''g'' ''3'' BNull (BNode ''h'' ''6'' BNull BNull 0) 1) 1) 1)) \<and>
   Inserts [(''d'', ''1''), (''b'', ''2''), (''g'', ''3''), (''a'', ''4''), (''a'', ''5''), (''h'', ''6'')]
     (Tree Null) =
     Some (Tree (Node ''d'' ''1'' (Node ''b'' ''2'' (Node ''a'' ''5'' Null Null 1) Null 2)
       (Node ''g'' ''3'' Null (Node ''h'' ''6'' Null Null 1) 2) 3)) \<and>
   Tree_Find_b ''a'' (BTree (BNode ''b'' ''2'' (BNode ''a'' ''5'' BNull BNull 0)
       (BNode ''d'' ''1'' BNull (BNode ''g'' ''3'' BNull (BNode ''h'' ''6'' BNull BNull 0) 1) 1) 1))
     = Some (''5'', True) \<and>
   Tree_Find [] ''a'' (Tree (Node ''d'' ''1'' (Node ''b'' ''2'' (Node ''a'' ''5'' Null Null 1) Null 2)
       (Node ''g'' ''3'' Null (Node ''h'' ''6'' Null Null 1) 2) 3)) = (''5'', True) \<and>
   Traverse (Tree (Node ''d'' ''1'' (Node ''b'' ''2'' (Node ''a'' ''5'' Null Null 1) Null 2)
       (Node ''g'' ''3'' Null (Node ''h'' ''6'' Null Null 1) 2) 3))
     (Node ''d'' ''1'' (Node ''b'' ''2'' (Node ''a'' ''5'' Null Null 1) Null 2)
       (Node ''g'' ''3'' Null (Node ''h'' ''6'' Null Null 1) 2) 3) visit_key []
     = [''a'', ''b'', ''d'', ''g'', ''h''] \<and>
   Traverse_b (BTree (BNode ''b'' ''2'' (BNode ''a'' ''5'' BNull BNull 0)
       (BNode ''d'' ''1'' BNull (BNode ''g'' ''3'' BNull (BNode ''h'' ''6'' BNull BNull 0) 1) 1) 1))
     (BNode ''b'' ''2'' (BNode ''a'' ''5'' BNull BNull 0)
       (BNode ''d'' ''1'' BNull (BNode ''g'' ''3'' BNull (BNode ''h'' ''6'' BNull BNull 0) 1) 1) 1)
     visit_key_b [] = [''a'', ''b'', ''d'', ''g'', ''h'']"
proof -
  let ?kvs = "[(''d'', ''1''), (''b'', ''2''), (''g'', ''3''), (''a'', ''4''), (''a'', ''5''), (''h'', ''6'')]"
  let ?rb = "BNode ''b'' ''2'' (BNode ''a'' ''5'' BNull BNull 0)
       (BNode ''d'' ''1'' BNull (BNode ''g'' ''3'' BNull (BNode ''h'' ''6'' BNull BNull 0) 1) 1) 1"
  let ?rg = "Node ''d'' ''1'' (Node ''b'' ''2'' (Node ''a'' ''5'' Null Null 1) Null 2)
       (Node ''g'' ''3'' Null (Node ''h'' ''6'' Null Null 1) 2) 3"
  have b: "Inserts_b ?kvs (BTree BNull) = Some (BTree ?rb)"
    by code_simp
  have g: "Inserts ?kvs (Tree Null) = Some (Tree ?rg)"
    by code_simp
  have tg: "Traverse (Tree ?rg) ?rg visit_key [] = [''a'', ''b'', ''d'', ''g'', ''h'']"
    by simp
  have fg: "Tree_Find [] ''a'' (Tree ?rg) = (''5'', True)"
    by code_simp
  from variants_equivalent[of ?kvs] b g
  have e: "\<forall>s. Tree_Find_b s (BTree ?rb) = Some (Tree_Find [] s (Tree ?rg))"
    and t: "Traverse_b (BTree ?rb) ?rb visit_key_b [] = Traverse (Tree ?rg) ?rg visit_key []"
    by (simp_all del: Inserts.simps Inserts_b.simps Tree_Find.simps Tree_Find_b.simps
        Traverse.simps Traverse_b.simps)
  from e have "Tree_Find_b ''a'' (BTree ?rb) = Some (Tree_Find [] ''a'' (Tree ?rg))"
    by blast
  with fg t tg b g show ?thesis
    by (simp del: Inserts.simps Inserts_b.simps Tree_Find.simps Tree_Find_b.simps
        Traverse.simps Traverse_b.simps)
qed

section \<open>The stored balance factors of the parent-pointer tree\<close>

text \<open>
  The dispatch of \<^verbatim>\<open>rebalance\<close> in balancedtree.go reads the stored \<^verbatim>\<open>bal\<close> fields. A stored
  \<^verbatim>\<open>bal\<close> is not always the true height difference: \<^verbatim>\<open>Node.Insert\<close> returns \<^verbatim>\<open>n.bal != 0\<close>, also
  when nothing below \<open>n\<close> has grown, and the double rotations set all three balance factors
  to 0 whatever the balance of the middle node was. After the inserts d, b, g, a, a, h the
  second insert of a has rotated the root, and the node d has an empty left subtree, a right
  subtree of height 2 and the stored balance factor 1.
\<close>

lemma stored_bal_can_drift:
  "Inserts_b [(''d'', ''1''), (''b'', ''2''), (''g'', ''3''), (''a'', ''4''), (''a'', ''5''), (''h'', ''6'')]
     (BTree BNull) =
     Some (BTree (BNode ''b'' ''2'' (BNode ''a'' ''5'' BNull BNull 0)
       (BNode ''d'' ''1'' BNull (BNode ''g'' ''3'' BNull (BNode ''h'' ''6'' BNull BNull 0) 1) 1) 1)) \<and>
   ht_b (BNode ''g'' ''3'' BNull (BNode ''h'' ''6'' BNull BNull 0) 1) - ht_b BNull = 2"
proof -
  have "Inserts_b [(''d'', ''1''), (''b'', ''2''), (''g'', ''3''), (''a'', ''4''), (''a'', ''5''), (''h'', ''6'')]
     (BTree BNull) =
     Some (BTree (BNode ''b'' ''2'' (BNode ''a'' ''5'' BNull BNull 0)
       (BNode ''d'' ''1'' BNull (BNode ''g'' ''3'' BNull (BNode ''h'' ''6'' BNull BNull 0) 1) 1) 1))"
    by code_simp
  then show ?thesis by simp
qed

text \<open>
  C4: the table of the spec dispatches on the balance factor of a node, the height of its
  right subtree minus the height of its left subtree. The generic tree follows the table
  at every node that an insertion hands to \<^verbatim>\<open>rebalance\<close> (lemma \<open>dispatch_generic\<close>). The
  parent-pointer tree of balancedtree.go does not, on trees that its own inserts build.

  Inserting the distinct keys a, b, d, e, f, c into the empty tree ends with a double
  rotation that leaves the node e with an empty left subtree, the right child f and the
  stored balance factor 0. Inserting g then gives e the balance factor 2 and its right
  child f the balance factor 1, where the table demands a single left rotation at e; the
  stored \<^verbatim>\<open>bal\<close> of e is 1, the guard \<^verbatim>\<open>n.bal < -1 || n.bal > 1\<close> is false at every node, and
  \<^verbatim>\<open>rebalance\<close> is not called at all. The generic tree rotates at e on the same input.

  In the other direction, after the inserts d, b, g, a the node d has the balance factor
  -1, within -1..1. Inserting a again changes no height, yet the stored \<^verbatim>\<open>bal\<close> of d drops to
  -2, \<^verbatim>\<open>rebalance\<close> is called on d and rotates it to the right, where the table has the node
  returned unchanged.
\<close>

theorem balancedtree_misses_rebalance:
  "Inserts_b [(''a'', ''1''), (''b'', ''2''), (''d'', ''3''), (''e'', ''4''), (''f'', ''5''), (''c'', ''6'')]
     (BTree BNull) =
     Some (BTree (BNode ''d'' ''3''
       (BNode ''b'' ''2'' (BNode ''a'' ''1'' BNull BNull 0) (BNode ''c'' ''6'' BNull BNull 0) 0)
       (BNode ''e'' ''4'' BNull (BNode ''f'' ''5'' BNull BNull 0) 0) 0)) \<and>
   rebalance_calls_b ''g'' ''7'' (BNode ''d'' ''3''
       (BNode ''b'' ''2'' (BNode ''a'' ''1'' BNull BNull 0) (BNode ''c'' ''6'' BNull BNull 0) 0)
       (BNode ''e'' ''4'' BNull (BNode ''f'' ''5'' BNull BNull 0) 0) 0) = [] \<and>
   Tree_Insert_b ''g'' ''7'' (BTree (BNode ''d'' ''3''
       (BNode ''b'' ''2'' (BNode ''a'' ''1'' BNull BNull 0) (BNode ''c'' ''6'' BNull BNull 0) 0)
       (BNode ''e'' ''4'' BNull (BNode ''f'' ''5'' BNull BNull 0) 0) 0)) =
     Some (BTree (BNode ''d'' ''3''
       (BNode ''b'' ''2'' (BNode ''a'' ''1'' BNull BNull 0) (BNode ''c'' ''6'' BNull BNull 0) 0)
       (BNode ''e'' ''4'' BNull
         (BNode ''f'' ''5'' BNull (BNode ''g'' ''7'' BNull BNull 0) 1) 1) 1)) \<and>
   bal_of (BNode ''e'' ''4'' BNull
       (BNode ''f'' ''5'' BNull (BNode ''g'' ''7'' BNull BNull 0) 1) 1) = Some 1 \<and>
   true_bal_b (BNode ''e'' ''4'' BNull
       (BNode ''f'' ''5'' BNull (BNode ''g'' ''7'' BNull BNull 0) 1) 1) = 2 \<and>
   true_bal_b (BNode ''f'' ''5'' BNull (BNode ''g'' ''7'' BNull BNull 0) 1) = 1 \<and>
   Inserts [(''a'', ''1''), (''b'', ''2''), (''d'', ''3''), (''e'', ''4''), (''f'', ''5''), (''c'', ''6''),
       (''g'', ''7'')] (Tree Null) =
     Some (Tree (Node ''d'' ''3''
       (Node ''b'' ''2'' (Node ''a'' ''1'' Null Null 1) (Node ''c'' ''6'' Null Null 1) 2)
       (Node ''f'' ''5'' (Node ''e'' ''4'' Null Null 1) (Node ''g'' ''7'' Null Null 1) 2) 3)) \<and>
   Inserts_b [(''d'', ''1''), (''b'', ''2''), (''g'', ''3''), (''a'', ''4'')] (BTree BNull) =
     Some (BTree (BNode ''d'' ''1''
       (BNode ''b'' ''2'' (BNode ''a'' ''4'' BNull BNull 0) BNull (-1))
       (BNode ''g'' ''3'' BNull BNull 0) (-1))) \<and>
   true_bal_b (BNode ''d'' ''1''
       (BNode ''b'' ''2'' (BNode ''a'' ''4'' BNull BNull 0) BNull (-1))
       (BNode ''g'' ''3'' BNull BNull 0) (-1)) = -1 \<and>
   rebalance_calls_b ''a'' ''5'' (BNode ''d'' ''1''
       (BNode ''b'' ''2'' (BNode ''a'' ''4'' BNull BNull 0) BNull (-1))
       (BNode ''g'' ''3'' BNull BNull 0) (-1)) =
     [BNode ''d'' ''1''
       (BNode ''b'' ''2'' (BNode ''a'' ''5'' BNull BNull 0) BNull (-1))
       (BNode ''g'' ''3'' BNull BNull 0) (-2)] \<and>
   true_bal_b (BNode ''d'' ''1''
       (BNode ''b'' ''2'' (BNode ''a'' ''5'' BNull BNull 0) BNull (-1))
       (BNode ''g'' ''3'' BNull BNull 0) (-2)) = -1 \<and>
   rebalance_b (BNode ''d'' ''1''
       (BNode ''b'' ''2'' (BNode ''a'' ''5'' BNull BNull 0) BNull (-1))
       (BNode ''g'' ''3'' BNull BNull 0) (-2)) =
     Some (BNode ''b'' ''2'' (BNode ''a'' ''5'' BNull BNull 0)
       (BNode ''d'' ''1'' BNull (BNode ''g'' ''3'' BNull BNull 0) 0) 0, 0)"
proof (intro conjI)
  show "Inserts_b [(''a'', ''1''), (''b'', ''2''), (''d'', ''3''), (''e'', ''4''), (''f'', ''5''), (''c'', ''6'')]
     (BTree BNull) =
     Some (BTree (BNode ''d'' ''3''
       (BNode ''b'' ''2'' (BNode ''a'' ''1'' BNull BNull 0) (BNode ''c'' ''6'' BNull BNull 0) 0)
       (BNode ''e'' ''4'' BNull (BNode ''f'' ''5'' BNull BNull 0) 0) 0))"
    by code_simp
  show "rebalance_calls_b ''g'' ''7'' (BNode ''d'' ''3''
       (BNode ''b'' ''2'' (BNode ''a'' ''1'' BNull BNull 0) (BNode ''c'' ''6'' BNull BNull 0) 0)
       (BNode ''e'' ''4'' BNull (BNode ''f'' ''5'' BNull BNull 0) 0) 0) = []"
    by code_simp
  show "Tree_Insert_b ''g'' ''7'' (BTree (BNode ''d'' ''3''
       (BNode ''b'' ''2'' (BNode ''a'' ''1'' BNull BNull 0) (BNode ''c'' ''6'' BNull BNull 0) 0)
       (BNode ''e'' ''4'' BNull (BNode ''f'' ''5'' BNull BNull 0) 0) 0)) =
     Some (BTree (BNode ''d'' ''3''
       (BNode ''b'' ''2'' (BNode ''a'' ''1'' BNull BNull 0) (BNode ''c'' ''6'' BNull BNull 0) 0)
       (BNode ''e'' ''4'' BNull
         (BNode ''f'' ''5'' BNull (BNode ''g'' ''7'' BNull BNull 0) 1) 1) 1))"
    by code_simp
  show "Inserts [(''a'', ''1''), (''b'', ''2''), (''d'', ''3''), (''e'', ''4''), (''f'', ''5''), (''c'', ''6''),
       (''g'', ''7'')] (Tree Null) =
     Some (Tree (Node ''d'' ''3''
       (Node ''b'' ''2'' (Node ''a'' ''1'' Null Null 1) (Node ''c'' ''6'' Null Null 1) 2)
       (Node ''f'' ''5'' (Node ''e'' ''4'' Null Null 1) (Node ''g'' ''7'' Null Null 1) 2) 3))"
    by code_simp
  show "Inserts_b [(''d'', ''1''), (''b'', ''2''), (''g'', ''3''), (''a'', ''4'')] (BTree BNull) =
     Some (BTree (BNode ''d'' ''1''
       (BNode ''b'' ''2'' (BNode ''a'' ''4'' BNull BNull 0) BNull (-1))
       (BNode ''g'' ''3'' BNull BNull 0) (-1)))"
    by code_simp
  show "rebalance_calls_b ''a'' ''5'' (BNode ''d'' ''1''
       (BNode ''b'' ''2'' (BNode ''a'' ''4'' BNull BNull 0) BNull (-1))
       (BNode ''g'' ''3'' BNull BNull 0) (-1)) =
     [BNode ''d'' ''1''
       (BNode ''b'' ''2'' (BNode ''a'' ''5'' BNull BNull 0) BNull (-1))
       (BNode ''g'' ''3'' BNull BNull 0) (-2)]"
    by code_simp
  show "rebalance_b (BNode ''d'' ''1''
       (BNode ''b'' ''2'' (BNode ''a'' ''5'' BNull BNull 0) BNull (-1))
       (BNode ''g'' ''3'' BNull BNull 0) (-2)) =
     Some (BNode ''b'' ''2'' (BNode ''a'' ''5'' BNull BNull 0)
       (BNode ''d'' ''1'' BNull (BNode ''g'' ''3'' BNull BNull 0) 0) 0, 0)"
    by code_simp
qed simp_all

end
